theory Spec2Isabelle
  imports Complex_Main "HOL-Library.Multiset"
begin

section \<open>Python values used by the solitaire scripts\<close>

text \<open>
  The scripts keep the board as a list of seven lists of integers
  (\<open>-1\<close> invalid corner, \<open>0\<close> empty hole, \<open>1\<close> peg).  Reading or writing a list
  outside its range raises \<open>IndexError\<close>, a missing dictionary key raises
  \<open>KeyError\<close>; both are values of the model.
\<close>

datatype error = IndexError | KeyError

type_synonym grid = "int list list"
type_synonym move = "int \<times> int"

text \<open>Sequencing of computations that may raise.\<close>

definition ebind :: "error + 'a \<Rightarrow> ('a \<Rightarrow> error + 'b) \<Rightarrow> error + 'b" where
  "ebind m f = (case m of Inl e \<Rightarrow> Inl e | Inr x \<Rightarrow> f x)"

text \<open>\<open>xs[i]\<close>: a negative index counts from the end of the list.\<close>

definition py_index :: "'a list \<Rightarrow> int \<Rightarrow> nat option" where
  "py_index xs i =
     (if 0 \<le> i \<and> i < int (length xs) then Some (nat i)
      else if i < 0 \<and> - int (length xs) \<le> i then Some (nat (int (length xs) + i))
      else None)"

definition py_get :: "'a list \<Rightarrow> int \<Rightarrow> error + 'a" where
  "py_get xs i = (case py_index xs i of None \<Rightarrow> Inl IndexError | Some k \<Rightarrow> Inr (xs ! k))"

text \<open>\<open>xs[i] = v\<close>, returning the updated list.\<close>

definition py_set :: "'a list \<Rightarrow> int \<Rightarrow> 'a \<Rightarrow> error + 'a list" where
  "py_set xs i v = (case py_index xs i of None \<Rightarrow> Inl IndexError | Some k \<Rightarrow> Inr (xs[k := v]))"

text \<open>\<open>d[k]\<close> on a dictionary kept as an association list in insertion order.\<close>

definition py_lookup :: "('k \<times> 'v) list \<Rightarrow> 'k \<Rightarrow> error + 'v" where
  "py_lookup d k = (case map_of d k of None \<Rightarrow> Inl KeyError | Some v \<Rightarrow> Inr v)"

text \<open>\<open>enumerate(xs)\<close>.\<close>

definition py_enumerate :: "'a list \<Rightarrow> (int \<times> 'a) list" where
  "py_enumerate xs = zip (map int [0..<length xs]) xs"

section \<open>Hole topology and the initial board\<close>

definition TEMPLATE :: "string list" where
  "TEMPLATE =
     [''  xxx'',
      ''  xxx'',
      ''xxxxxxx'',
      ''xxxoxxx'',
      ''xxxxxxx'',
      ''  xxx'',
      ''  xxx'']"

definition ROWS :: int where "ROWS = 7"
definition COLS :: int where "COLS = 7"

text \<open>
  The module-level loop visits the template row by row and gives every character
  \<open>x\<close> or \<open>o\<close> the next hole number, starting at 1.  \<open>template_cells\<close> is the
  sequence of the visited cells that are holes, with their character.
\<close>

definition template_cells :: "((int \<times> int) \<times> char) list" where
  "template_cells =
     concat (map (\<lambda>(r, row).
        concat (map (\<lambda>(c, ch). if ch = CHR ''x'' \<or> ch = CHR ''o'' then [((r, c), ch)] else [])
                    (py_enumerate row)))
        (py_enumerate TEMPLATE))"

definition index_to_pos :: "(int \<times> (int \<times> int)) list" where
  "index_to_pos = zip (map int [1..<Suc (length template_cells)]) (map fst template_cells)"

definition pos_to_index :: "((int \<times> int) \<times> int) list" where
  "pos_to_index = zip (map fst template_cells) (map int [1..<Suc (length template_cells)])"

definition NUM_HOLES :: int where
  "NUM_HOLES = int (length template_cells)"

text \<open>\<open>b[r][c]\<close> and \<open>b[r][c] = v\<close> on a grid.\<close>

definition cell :: "grid \<Rightarrow> int \<Rightarrow> int \<Rightarrow> error + int" where
  "cell b r c = ebind (py_get b r) (\<lambda>row. py_get row c)"

definition set_cell :: "grid \<Rightarrow> int \<Rightarrow> int \<Rightarrow> int \<Rightarrow> error + grid" where
  "set_cell b r c v =
     ebind (py_get b r) (\<lambda>row. ebind (py_set row c v) (\<lambda>row'. py_set b r row'))"

text \<open>
  The initial board: seven rows of seven \<open>-1\<close>, then every hole of the template set to
  \<open>1\<close> (\<open>x\<close>) or \<open>0\<close> (\<open>o\<close>).  The writes are inside the grid, so none raises; the
  model keeps the grid unchanged where one would.
\<close>

definition board :: grid where
  "board =
     foldl (\<lambda>b ((r, c), ch).
              (case set_cell b r c (if ch = CHR ''x'' then 1 else 0) of
                 Inl e \<Rightarrow> b | Inr b' \<Rightarrow> b'))
           (replicate (nat ROWS) (replicate (nat COLS) (- 1))) template_cells"

definition DIRECTIONS :: "(int \<times> int) list" where
  "DIRECTIONS = [(- 1, 0), (1, 0), (0, - 1), (0, 1)]"

section \<open>Board model\<close>

text \<open>
  One iteration of the inner loop of \<open>legal_moves\<close>: for the hole at \<open>(r, c)\<close> and the
  direction \<open>(dr, dc)\<close> the guard is evaluated left to right with Python's
  short-circuit \<open>and\<close>; \<open>Some to\<close> is the hole number appended with \<open>frm\<close>.
\<close>

definition jump_target :: "grid \<Rightarrow> int \<times> int \<Rightarrow> int \<times> int \<Rightarrow> error + int option" where
  "jump_target b pos d =
     (case pos of (r, c) \<Rightarrow> case d of (dr, dc) \<Rightarrow>
        let mid_r = r + dr; mid_c = c + dc; to_r = r + 2 * dr; to_c = c + 2 * dc in
        if 0 \<le> to_r \<and> to_r < ROWS \<and> 0 \<le> to_c \<and> to_c < COLS then
          ebind (cell b mid_r mid_c) (\<lambda>m.
            if m = 1 then
              ebind (cell b to_r to_c) (\<lambda>t.
                if t = 0 then ebind (py_lookup pos_to_index (to_r, to_c)) (\<lambda>i. Inr (Some i))
                else Inr None)
            else Inr None)
        else Inr None)"

fun moves_from :: "grid \<Rightarrow> int \<Rightarrow> int \<times> int \<Rightarrow> (int \<times> int) list \<Rightarrow> move list \<Rightarrow> error + move list" where
  "moves_from b frm pos [] moves = Inr moves"
| "moves_from b frm pos (d # ds) moves =
     (case jump_target b pos d of
        Inl e \<Rightarrow> Inl e
      | Inr None \<Rightarrow> moves_from b frm pos ds moves
      | Inr (Some t) \<Rightarrow> moves_from b frm pos ds (moves @ [(frm, t)]))"

fun scan_holes :: "grid \<Rightarrow> (int \<times> (int \<times> int)) list \<Rightarrow> move list \<Rightarrow> error + move list" where
  "scan_holes b [] moves = Inr moves"
| "scan_holes b ((frm, (r, c)) # rest) moves =
     (case cell b r c of
        Inl e \<Rightarrow> Inl e
      | Inr v \<Rightarrow>
          if v \<noteq> 1 then scan_holes b rest moves
          else (case moves_from b frm (r, c) DIRECTIONS moves of
                  Inl e \<Rightarrow> Inl e
                | Inr moves' \<Rightarrow> scan_holes b rest moves'))"

text \<open>\<open>legal_moves(current_board)\<close> of bfs.py and HDFS.py; soloT2.py runs the same loop on its global board.\<close>

definition legal_moves :: "grid \<Rightarrow> error + move list" where
  "legal_moves b = scan_holes b index_to_pos []"

definition peg_count :: "grid \<Rightarrow> int" where
  "peg_count b = sum_list (map (\<lambda>c. if c = 1 then 1 else 0) (concat b))"

text \<open>
  A well-formed board has the shape and the invalid cells of the initial board, and
  every other cell is \<open>0\<close> or \<open>1\<close>.
\<close>

definition well_formed :: "grid \<Rightarrow> bool" where
  "well_formed b \<longleftrightarrow>
     map (map (\<lambda>v. v = - 1)) b = map (map (\<lambda>v. v = - 1)) board \<and>
     (\<forall>row \<in> set b. \<forall>v \<in> set row. v = - 1 \<or> v = 0 \<or> v = 1)"


section \<open>Move applicator\<close>

text \<open>
  The body of the loop of \<open>generate_child_boards\<close> (bfs.py, HDFS.py) after the
  \<open>deepcopy\<close>, which is also what \<open>make_move\<close> of soloT2.py does to the global
  board: look both holes up, take the midpoint by floor division, and write
  \<open>0\<close>, \<open>0\<close>, \<open>1\<close> in this order.
\<close>

definition apply_move :: "grid \<Rightarrow> move \<Rightarrow> error + grid" where
  "apply_move b m =
     (case m of (from_idx, to_idx) \<Rightarrow>
        ebind (py_lookup index_to_pos from_idx) (\<lambda>p1.
        ebind (py_lookup index_to_pos to_idx) (\<lambda>p2.
          case p1 of (r1, c1) \<Rightarrow> case p2 of (r2, c2) \<Rightarrow>
          let mid_r = (r1 + r2) div 2; mid_c = (c1 + c2) div 2 in
          ebind (set_cell b r1 c1 0) (\<lambda>b1.
          ebind (set_cell b1 mid_r mid_c 0) (\<lambda>b2.
          set_cell b2 r2 c2 1)))))"

fun child_boards_loop :: "grid \<Rightarrow> move list \<Rightarrow> (grid \<times> move) list \<Rightarrow> error + (grid \<times> move) list" where
  "child_boards_loop b [] children = Inr children"
| "child_boards_loop b (m # ms) children =
     (case apply_move b m of
        Inl e \<Rightarrow> Inl e
      | Inr new_board \<Rightarrow> child_boards_loop b ms (children @ [(new_board, m)]))"

text \<open>\<open>generate_child_boards(current_board)\<close> of bfs.py.\<close>

definition generate_child_boards :: "grid \<Rightarrow> error + (grid \<times> move) list" where
  "generate_child_boards b =
     ebind (legal_moves b) (\<lambda>possible_moves. child_boards_loop b possible_moves [])"

text \<open>
  \<open>generate_successor_states\<close> of test.py enumerates and applies in one pass: the
  destination is tested against the grid bounds, the jumped and destination cells are
  read, the copy is written, and only then is the destination's hole number looked up.
\<close>

definition successor_step ::
  "grid \<Rightarrow> int \<Rightarrow> int \<times> int \<Rightarrow> int \<times> int \<Rightarrow> error + (int \<times> int \<times> grid) option" where
  "successor_step b from_hole_index pos d =
     (case pos of (from_row, from_col) \<Rightarrow> case d of (row_step, col_step) \<Rightarrow>
        let jumped_row = from_row + row_step; jumped_col = from_col + col_step;
            destination_row = from_row + 2 * row_step;
            destination_col = from_col + 2 * col_step in
        if \<not> (0 \<le> destination_row \<and> destination_row < ROWS \<and>
               0 \<le> destination_col \<and> destination_col < COLS) then Inr None
        else
          ebind (cell b jumped_row jumped_col) (\<lambda>j.
            if j = 1 then
              ebind (cell b destination_row destination_col) (\<lambda>t.
                if t = 0 then
                  ebind (set_cell b from_row from_col 0) (\<lambda>b1.
                  ebind (set_cell b1 jumped_row jumped_col 0) (\<lambda>b2.
                  ebind (set_cell b2 destination_row destination_col 1) (\<lambda>new_board_state.
                  ebind (py_lookup pos_to_index (destination_row, destination_col)) (\<lambda>to_hole_index.
                    Inr (Some (from_hole_index, to_hole_index, new_board_state))))))
                else Inr None)
            else Inr None))"

fun successors_from ::
  "grid \<Rightarrow> int \<Rightarrow> int \<times> int \<Rightarrow> (int \<times> int) list \<Rightarrow> (int \<times> int \<times> grid) list
     \<Rightarrow> error + (int \<times> int \<times> grid) list" where
  "successors_from b frm pos [] acc = Inr acc"
| "successors_from b frm pos (d # ds) acc =
     (case successor_step b frm pos d of
        Inl e \<Rightarrow> Inl e
      | Inr None \<Rightarrow> successors_from b frm pos ds acc
      | Inr (Some s) \<Rightarrow> successors_from b frm pos ds (acc @ [s]))"

fun scan_successors ::
  "grid \<Rightarrow> (int \<times> (int \<times> int)) list \<Rightarrow> (int \<times> int \<times> grid) list
     \<Rightarrow> error + (int \<times> int \<times> grid) list" where
  "scan_successors b [] acc = Inr acc"
| "scan_successors b ((frm, (r, c)) # rest) acc =
     (case cell b r c of
        Inl e \<Rightarrow> Inl e
      | Inr v \<Rightarrow>
          if v \<noteq> 1 then scan_successors b rest acc
          else (case successors_from b frm (r, c) DIRECTIONS acc of
                  Inl e \<Rightarrow> Inl e
                | Inr acc' \<Rightarrow> scan_successors b rest acc'))"

definition generate_successor_states :: "grid \<Rightarrow> error + (int \<times> int \<times> grid) list" where
  "generate_successor_states b = scan_successors b index_to_pos []"

section \<open>Interactive legality check (soloT2.py)\<close>

definition is_valid_move :: "grid \<Rightarrow> int \<Rightarrow> int \<Rightarrow> error + bool" where
  "is_valid_move b frm to =
     (if map_of index_to_pos frm = None \<or> map_of index_to_pos to = None then Inr False
      else
        ebind (py_lookup index_to_pos frm) (\<lambda>p1.
        ebind (py_lookup index_to_pos to) (\<lambda>p2.
          case p1 of (r1, c1) \<Rightarrow> case p2 of (r2, c2) \<Rightarrow>
          ebind (cell b r1 c1) (\<lambda>v1.
            if v1 \<noteq> 1 then Inr False
            else ebind (cell b r2 c2) (\<lambda>v2.
              if v2 \<noteq> 0 then Inr False
              else
                let dr = r2 - r1; dc = c2 - c1 in
                if \<bar>dr\<bar> = 2 \<and> dc = 0 then
                  ebind (cell b (r1 + dr div 2) c1) (\<lambda>m. Inr (m = 1))
                else if \<bar>dc\<bar> = 2 \<and> dr = 0 then
                  ebind (cell b r1 (c1 + dc div 2)) (\<lambda>m. Inr (m = 1))
                else Inr False)))))"

text \<open>\<open>make_move\<close>: the answer and the board afterwards.\<close>

definition make_move :: "grid \<Rightarrow> int \<Rightarrow> int \<Rightarrow> error + (bool \<times> grid)" where
  "make_move b frm to =
     ebind (is_valid_move b frm to) (\<lambda>ok.
       if \<not> ok then Inr (False, b)
       else ebind (apply_move b (frm, to)) (\<lambda>b'. Inr (True, b')))"

section \<open>The dictionary variant (soloT.py)\<close>

text \<open>
  soloT.py keeps \<open>state\<close>, a dictionary from hole number to a boolean (peg present),
  filled in the order of \<open>index_to_pos\<close>.
\<close>

type_synonym pegs = "(int \<times> bool) list"

definition state :: pegs where
  "state = map (\<lambda>(i, (r, c)). (i, (TEMPLATE ! nat r) ! nat c = CHR ''x'')) index_to_pos"

definition jump_target_state :: "pegs \<Rightarrow> int \<times> int \<Rightarrow> int \<times> int \<Rightarrow> error + int option" where
  "jump_target_state st pos d =
     (case pos of (r, c) \<Rightarrow> case d of (dr, dc) \<Rightarrow>
        let mid = (r + dr, c + dc); dest = (r + 2 * dr, c + 2 * dc) in
        if map_of pos_to_index mid \<noteq> None \<and> map_of pos_to_index dest \<noteq> None then
          ebind (py_lookup pos_to_index mid) (\<lambda>mid_idx.
          ebind (py_lookup pos_to_index dest) (\<lambda>dest_idx.
          ebind (py_lookup st mid_idx) (\<lambda>m.
            if m then ebind (py_lookup st dest_idx) (\<lambda>t. if \<not> t then Inr (Some dest_idx) else Inr None)
            else Inr None)))
        else Inr None)"

fun moves_from_state :: "pegs \<Rightarrow> int \<Rightarrow> int \<times> int \<Rightarrow> (int \<times> int) list \<Rightarrow> move list \<Rightarrow> error + move list" where
  "moves_from_state st i pos [] moves = Inr moves"
| "moves_from_state st i pos (d # ds) moves =
     (case jump_target_state st pos d of
        Inl e \<Rightarrow> Inl e
      | Inr None \<Rightarrow> moves_from_state st i pos ds moves
      | Inr (Some t) \<Rightarrow> moves_from_state st i pos ds (moves @ [(i, t)]))"

fun scan_state :: "pegs \<Rightarrow> (int \<times> bool) list \<Rightarrow> move list \<Rightarrow> error + move list" where
  "scan_state st [] moves = Inr moves"
| "scan_state st ((i, occupied) # rest) moves =
     (if \<not> occupied then scan_state st rest moves
      else (case py_lookup index_to_pos i of
              Inl e \<Rightarrow> Inl e
            | Inr pos \<Rightarrow>
                (case moves_from_state st i pos DIRECTIONS moves of
                   Inl e \<Rightarrow> Inl e
                 | Inr moves' \<Rightarrow> scan_state st rest moves')))"

definition legal_moves_state :: "pegs \<Rightarrow> error + move list" where
  "legal_moves_state st = scan_state st st []"

definition is_valid_move_state :: "pegs \<Rightarrow> int \<Rightarrow> int \<Rightarrow> error + bool" where
  "is_valid_move_state st frm to =
     (if map_of st frm = None \<or> map_of st to = None then Inr False
      else
        ebind (py_lookup st frm) (\<lambda>v1.
          if \<not> v1 then Inr False
          else ebind (py_lookup st to) (\<lambda>v2.
            if v2 then Inr False
            else
              ebind (py_lookup index_to_pos frm) (\<lambda>p1.
              ebind (py_lookup index_to_pos to) (\<lambda>p2.
                case p1 of (r1, c1) \<Rightarrow> case p2 of (r2, c2) \<Rightarrow>
                let dr = r2 - r1; dc = c2 - c1 in
                if \<bar>dr\<bar> = 2 \<and> dc = 0 then
                  (let mid = (r1 + dr div 2, c1) in
                   if map_of pos_to_index mid = None then Inr False
                   else ebind (py_lookup pos_to_index mid) (\<lambda>mid_idx. py_lookup st mid_idx))
                else if \<bar>dc\<bar> = 2 \<and> dr = 0 then
                  (let mid = (r1, c1 + dc div 2) in
                   if map_of pos_to_index mid = None then Inr False
                   else ebind (py_lookup pos_to_index mid) (\<lambda>mid_idx. py_lookup st mid_idx))
                else Inr False)))))"

text \<open>A state of soloT.py has exactly the holes as keys, in their order.\<close>

definition well_formed_state :: "pegs \<Rightarrow> bool" where
  "well_formed_state st \<longleftrightarrow> map fst st = map fst index_to_pos"

section \<open>Printing helpers of bfs.py and HDFS.py\<close>

fun emap :: "('a \<Rightarrow> error + 'b) \<Rightarrow> 'a list \<Rightarrow> error + 'b list" where
  "emap f [] = Inr []"
| "emap f (x # xs) =
     (case f x of
        Inl e \<Rightarrow> Inl e
      | Inr y \<Rightarrow> (case emap f xs of Inl e \<Rightarrow> Inl e | Inr ys \<Rightarrow> Inr (y # ys)))"

fun py_join :: "string \<Rightarrow> string list \<Rightarrow> string" where
  "py_join sep [] = []"
| "py_join sep [x] = x"
| "py_join sep (x # y # ys) = x @ sep @ py_join sep (y # ys)"

text \<open>\<open>render(current_board)\<close> reads all 49 cells by index.\<close>

definition render :: "grid \<Rightarrow> error + string" where
  "render current_board =
     ebind (emap (\<lambda>r.
              ebind (emap (\<lambda>c. ebind (cell current_board r c) (\<lambda>val.
                             Inr (if val = - 1 then ''  '' else if val = 1 then ''x '' else ''o '')))
                          (map int [0..<nat COLS]))
                    (\<lambda>out. Inr (concat out)))
                 (map int [0..<nat ROWS]))
           (\<lambda>lines. Inr (py_join [CHR 0x0A] lines))"

text \<open>\<open>print_status\<close>: the three things printed (board text, pegs remaining, number of legal moves).\<close>

definition print_status :: "grid \<Rightarrow> error + (string \<times> int \<times> int)" where
  "print_status current_board =
     ebind (render current_board) (\<lambda>text.
     ebind (legal_moves current_board) (\<lambda>lm.
       Inr (text, peg_count current_board, int (length lm))))"

text \<open>\<open>list_moves\<close>: one printed line per source hole, in sorted order, with its sorted targets.\<close>

definition list_moves :: "grid \<Rightarrow> error + (int \<times> int list) list" where
  "list_moves current_board =
     ebind (legal_moves current_board) (\<lambda>lm.
       Inr (map (\<lambda>f. (f, sort (map snd (filter (\<lambda>m. fst m = f) lm))))
                (sort (remdups (map fst lm)))))"

section \<open>Search nodes and the values compared by the searches\<close>

text \<open>
  \<open>treenodes\<close> of HDFS.py: a board, the parent node (or \<open>None\<close>) and the move that led
  to the board (or \<open>None\<close>).  Nodes are never mutated after construction.
\<close>

datatype treenodes =
  Treenodes (node_board: grid) (node_parent: "treenodes option") (node_move: "move option")

text \<open>
  The searches test membership with Python's \<open>in\<close>, which compares with \<open>==\<close>.  Three
  kinds of object meet in these tests: a board as a list of lists, a serialized board
  (tuple of tuples) and a \<open>treenodes\<close> object.  Objects of different kinds are never
  equal: a list is not equal to a tuple, and a \<open>treenodes\<close> object (no \<open>__eq__\<close>) is
  equal only to itself.
\<close>

datatype pyobj = PyList grid | PyTuple grid | PyNode treenodes

definition serialize :: "grid \<Rightarrow> pyobj" where
  "serialize board_state = PyTuple board_state"

text \<open>What a search function returns, and the last line it prints.\<close>

datatype pyresult = PyNone | PyMoves "move list"

datatype message = No_solution_found | You_win | Goal_reached | No_solution_within_limits

text \<open>
  The outcome of a run: the returned value, the last message printed, the boards of the
  nodes taken from the frontier in the order they were taken (each is printed by the
  loop), and what \<open>print_path\<close> printed (HDFS.py only).
\<close>

record run =
  returned :: pyresult
  announced :: message
  taken :: "grid list"
  shown_path :: "(grid \<times> move option) list"

section \<open>Breadth-first search of test.py\<close>

definition goal_at_center :: "grid \<Rightarrow> error + bool" where
  "goal_at_center b =
     (if peg_count b = 1 then ebind (cell b 3 3) (\<lambda>v. Inr (v = 1)) else Inr False)"

fun enqueue_successors ::
  "(int \<times> int \<times> grid) list \<Rightarrow> move list \<Rightarrow> (grid \<times> move list) list \<Rightarrow> pyobj set
     \<Rightarrow> (grid \<times> move list) list \<times> pyobj set" where
  "enqueue_successors [] current_move_sequence frontier_queue visited_boards =
     (frontier_queue, visited_boards)"
| "enqueue_successors ((from_hole_index, to_hole_index, next_board_state) # rest)
       current_move_sequence frontier_queue visited_boards =
     (if serialize next_board_state \<notin> visited_boards then
        enqueue_successors rest current_move_sequence
          (frontier_queue @ [(next_board_state,
                              current_move_sequence @ [(from_hole_index, to_hole_index)])])
          (insert (serialize next_board_state) visited_boards)
      else enqueue_successors rest current_move_sequence frontier_queue visited_boards)"

function BFS_test_loop ::
  "(grid \<times> move list) list \<Rightarrow> pyobj set \<Rightarrow> grid list \<Rightarrow> error + run" where
  "BFS_test_loop frontier_queue visited_boards shown =
     (case frontier_queue of
        [] \<Rightarrow> Inr \<lparr>returned = PyNone, announced = No_solution_within_limits,
                   taken = shown, shown_path = []\<rparr>
      | current # rest \<Rightarrow>
          (case goal_at_center (fst current) of
             Inl e \<Rightarrow> Inl e
           | Inr goal \<Rightarrow>
               if goal then
                 Inr \<lparr>returned = PyMoves (snd current), announced = Goal_reached,
                      taken = shown @ [fst current], shown_path = []\<rparr>
               else
                 (case generate_successor_states (fst current) of
                    Inl e \<Rightarrow> Inl e
                  | Inr successors \<Rightarrow>
                      BFS_test_loop
                        (fst (enqueue_successors successors (snd current) rest visited_boards))
                        (snd (enqueue_successors successors (snd current) rest visited_boards))
                        (shown @ [fst current]))))"
  by pat_completeness auto

text \<open>\<open>BFS()\<close> of test.py, from the board \<open>b0\<close>; the script runs it from \<open>board\<close>.\<close>

definition BFS_test :: "grid \<Rightarrow> error + run" where
  "BFS_test b0 = BFS_test_loop [(b0, [])] {serialize b0} []"

section \<open>Breadth-first search of bfs.py\<close>

text \<open>
  \<open>frontier\<close> holds boards (lists of lists), \<open>explored\<close> holds serialized boards
  (tuples).  \<open>add_to_frontier\<close> tests the board itself against both lists.
\<close>

definition add_to_frontier :: "grid \<Rightarrow> grid list \<Rightarrow> pyobj list \<Rightarrow> grid list" where
  "add_to_frontier s frontier explored =
     (if PyList s \<notin> set explored \<and> s \<notin> set frontier then frontier @ [s] else frontier)"

fun add_children :: "grid list \<Rightarrow> grid list \<Rightarrow> pyobj list \<Rightarrow> grid list" where
  "add_children [] frontier explored = frontier"
| "add_children (child # rest) frontier explored =
     (if serialize child \<notin> set explored
      then add_children rest (add_to_frontier child frontier explored) explored
      else add_children rest frontier explored)"

function BFS_bfs_loop :: "grid list \<Rightarrow> pyobj list \<Rightarrow> grid list \<Rightarrow> error + run" where
  "BFS_bfs_loop frontier explored shown =
     (case frontier of
        [] \<Rightarrow> Inr \<lparr>returned = PyNone, announced = No_solution_found,
                   taken = shown, shown_path = []\<rparr>
      | node # rest \<Rightarrow>
          (case print_status node of
             Inl e \<Rightarrow> Inl e
           | Inr status \<Rightarrow>
               if peg_count node = 1 then
                 Inr \<lparr>returned = PyNone, announced = You_win,
                      taken = shown @ [node], shown_path = []\<rparr>
               else
                 (case list_moves node of
                    Inl e \<Rightarrow> Inl e
                  | Inr lines \<Rightarrow>
                      (case generate_child_boards node of
                         Inl e \<Rightarrow> Inl e
                       | Inr children \<Rightarrow>
                           BFS_bfs_loop
                             (add_children (map fst children) rest (explored @ [serialize node]))
                             (explored @ [serialize node])
                             (shown @ [node])))))"
  by pat_completeness auto

text \<open>
  \<open>BFS()\<close> of bfs.py, from the board \<open>b0\<close> with the module's empty \<open>frontier\<close> and
  \<open>explored\<close>; the script runs it from \<open>board\<close>.
\<close>

definition BFS_bfs :: "grid \<Rightarrow> error + run" where
  "BFS_bfs b0 = BFS_bfs_loop (add_to_frontier b0 [] []) [] []"

section \<open>Depth-first search of HDFS.py\<close>

fun child_nodes_loop :: "treenodes \<Rightarrow> move list \<Rightarrow> treenodes list \<Rightarrow> error + treenodes list" where
  "child_nodes_loop current_board [] children = Inr children"
| "child_nodes_loop current_board (m # ms) children =
     (case apply_move (node_board current_board) m of
        Inl e \<Rightarrow> Inl e
      | Inr new_board \<Rightarrow>
          child_nodes_loop current_board ms
            (children @ [Treenodes new_board (Some current_board) (Some m)]))"

definition generate_child_boards_dfs :: "treenodes \<Rightarrow> error + treenodes list" where
  "generate_child_boards_dfs current_board =
     ebind (legal_moves (node_board current_board))
           (\<lambda>possible_moves. child_nodes_loop current_board possible_moves [])"

text \<open>
  The sort key \<open>1/(len(legal_moves(x.board)) + 1)\<close>.  The script computes it as a
  float; the quotient of 1 by a positive integer below \<open>2^53\<close> is rounded monotonically
  and injectively, so the model uses the exact rational, which orders the children
  identically.
\<close>

definition heuristic_key :: "treenodes \<Rightarrow> error + rat" where
  "heuristic_key x =
     ebind (legal_moves (node_board x)) (\<lambda>lm. Inr (1 / (of_nat (length lm) + 1)))"

text \<open>\<open>reversed(sorted(children, key=...))\<close>; \<open>sorted\<close> is stable, as \<open>sort_key\<close> is.\<close>

definition heuristic_order :: "treenodes list \<Rightarrow> error + treenodes list" where
  "heuristic_order children =
     ebind (emap (\<lambda>x. ebind (heuristic_key x) (\<lambda>k. Inr (k, x))) children)
           (\<lambda>keyed. Inr (rev (map snd (sort_key fst keyed))))"

definition add_to_frontier_dfs :: "treenodes \<Rightarrow> treenodes list \<Rightarrow> pyobj list \<Rightarrow> treenodes list" where
  "add_to_frontier_dfs s frontier chechked_boards =
     (if PyNode s \<notin> set chechked_boards then frontier @ [s] else frontier)"

fun add_children_dfs ::
  "treenodes list \<Rightarrow> treenodes list \<Rightarrow> pyobj list \<Rightarrow> pyobj list \<Rightarrow> treenodes list" where
  "add_children_dfs [] frontier chechked_boards explored = frontier"
| "add_children_dfs (child # rest) frontier chechked_boards explored =
     (if serialize (node_board child) \<notin> set explored
      then add_children_dfs rest (add_to_frontier_dfs child frontier chechked_boards)
             chechked_boards explored
      else add_children_dfs rest frontier chechked_boards explored)"

text \<open>The list built by the \<open>while node:\<close> loop of \<open>print_path\<close>: the node, its parent, ..., the root.\<close>

fun ancestors :: "treenodes \<Rightarrow> treenodes list" where
  "ancestors (Treenodes b p m) =
     Treenodes b p m # (case p of None \<Rightarrow> [] | Some q \<Rightarrow> ancestors q)"

text \<open>\<open>print_path\<close> prints, from the root down, the status of each board and its move.\<close>

definition print_path :: "treenodes \<Rightarrow> error + (grid \<times> move option) list" where
  "print_path node =
     emap (\<lambda>step. ebind (print_status (node_board step))
                          (\<lambda>status. Inr (node_board step, node_move step)))
          (rev (ancestors node))"

function DFS_loop ::
  "treenodes list \<Rightarrow> pyobj list \<Rightarrow> pyobj list \<Rightarrow> grid list \<Rightarrow> error + run" where
  "DFS_loop frontier chechked_boards explored shown =
     (if frontier = [] then
        Inr \<lparr>returned = PyNone, announced = No_solution_found, taken = shown, shown_path = []\<rparr>
      else
        (case print_status (node_board (last frontier)) of
           Inl e \<Rightarrow> Inl e
         | Inr status \<Rightarrow>
             if peg_count (node_board (last frontier)) = 1 then
               (case print_path (last frontier) of
                  Inl e \<Rightarrow> Inl e
                | Inr steps \<Rightarrow>
                    Inr \<lparr>returned = PyNone, announced = You_win,
                         taken = shown @ [node_board (last frontier)], shown_path = steps\<rparr>)
             else
               (case list_moves (node_board (last frontier)) of
                  Inl e \<Rightarrow> Inl e
                | Inr lines \<Rightarrow>
                    (case generate_child_boards_dfs (last frontier) of
                       Inl e \<Rightarrow> Inl e
                     | Inr children \<Rightarrow>
                         (case heuristic_order children of
                            Inl e \<Rightarrow> Inl e
                          | Inr ordered \<Rightarrow>
                              DFS_loop
                                (add_children_dfs ordered (butlast frontier)
                                   (chechked_boards @ [serialize (node_board (last frontier))])
                                   (explored @ [PyNode (last frontier)]))
                                (chechked_boards @ [serialize (node_board (last frontier))])
                                (explored @ [PyNode (last frontier)])
                                (shown @ [node_board (last frontier)]))))))"
  by pat_completeness auto

text \<open>
  \<open>DFS()\<close> from the board \<open>b0\<close> with the module's empty \<open>frontier\<close>,
  \<open>chechked_boards\<close> and \<open>explored\<close>; the script runs it from \<open>board\<close>.
\<close>

definition DFS :: "grid \<Rightarrow> error + run" where
  "DFS b0 =
     DFS_loop (add_to_frontier_dfs (Treenodes b0 None None) [] [])
              [serialize b0] [] []"

section \<open>Auxiliary notions for the proofs\<close>

definition in_grid :: "int \<Rightarrow> int \<Rightarrow> bool" where
  "in_grid r c \<longleftrightarrow> 0 \<le> r \<and> r < 7 \<and> 0 \<le> c \<and> c < 7"

definition peek :: "grid \<Rightarrow> int \<Rightarrow> int \<Rightarrow> int" where
  "peek b r c = b ! nat r ! nat c"

definition shape7 :: "grid \<Rightarrow> bool" where
  "shape7 b \<longleftrightarrow> length b = 7 \<and> (\<forall>row \<in> set b. length row = 7)"

definition targets :: "grid \<Rightarrow> int \<times> int \<Rightarrow> (int \<times> int) list \<Rightarrow> int list" where
  "targets b pos ds =
     List.map_filter (\<lambda>d. case jump_target b pos d of Inl e \<Rightarrow> None | Inr r \<Rightarrow> r) ds"

definition moves_list :: "grid \<Rightarrow> (int \<times> (int \<times> int)) list \<Rightarrow> move list" where
  "moves_list b hs =
     concat (map (\<lambda>(frm, pos). if cell b (fst pos) (snd pos) = Inr 1
                                 then map (Pair frm) (targets b pos DIRECTIONS) else []) hs)"

definition legal_spec :: "grid \<Rightarrow> move \<Rightarrow> bool" where
  "legal_spec b m =
     (case m of (f, t) \<Rightarrow>
        (case map_of index_to_pos f of
           None \<Rightarrow> False
         | Some (r1, c1) \<Rightarrow>
             (case map_of index_to_pos t of
                None \<Rightarrow> False
              | Some (r2, c2) \<Rightarrow>
                  cell b r1 c1 = Inr 1 \<and> cell b r2 c2 = Inr 0 \<and>
                  ((\<bar>r2 - r1\<bar> = 2 \<and> c2 = c1) \<or> (r2 = r1 \<and> \<bar>c2 - c1\<bar> = 2)) \<and>
                  cell b ((r1 + r2) div 2) ((c1 + c2) div 2) = Inr 1)))"


definition targets_state :: "pegs \<Rightarrow> int \<times> int \<Rightarrow> (int \<times> int) list \<Rightarrow> int list" where
  "targets_state st pos ds =
     List.map_filter (\<lambda>d. case jump_target_state st pos d of Inl e \<Rightarrow> None | Inr r \<Rightarrow> r) ds"

definition moves_list_state :: "pegs \<Rightarrow> (int \<times> bool) list \<Rightarrow> move list" where
  "moves_list_state st items =
     concat (map (\<lambda>(i, occupied).
        if occupied then
          (case map_of index_to_pos i of None \<Rightarrow> []
           | Some pos \<Rightarrow> map (Pair i) (targets_state st pos DIRECTIONS))
        else []) items)"

definition legal_state :: "pegs \<Rightarrow> move \<Rightarrow> bool" where
  "legal_state st m =
     (case m of (f, t) \<Rightarrow>
        map_of st f = Some True \<and> map_of st t = Some False \<and>
        (case map_of index_to_pos f of
           None \<Rightarrow> False
         | Some (r1, c1) \<Rightarrow>
             (case map_of index_to_pos t of
                None \<Rightarrow> False
              | Some (r2, c2) \<Rightarrow>
                  ((\<bar>r2 - r1\<bar> = 2 \<and> c2 = c1) \<or> (r2 = r1 \<and> \<bar>c2 - c1\<bar> = 2)) \<and>
                  (case map_of pos_to_index ((r1 + r2) div 2, (c1 + c2) div 2) of
                     None \<Rightarrow> False
                   | Some mid_idx \<Rightarrow> map_of st mid_idx = Some True))))"

definition valid :: "grid \<Rightarrow> int \<Rightarrow> int \<Rightarrow> bool" where
  "valid b r c \<longleftrightarrow> 0 \<le> r \<and> 0 \<le> c \<and> nat r < length b \<and> nat c < length (b ! nat r)"

definition upd :: "grid \<Rightarrow> int \<Rightarrow> int \<Rightarrow> int \<Rightarrow> grid" where
  "upd b r c v = b[nat r := (b ! nat r)[nat c := v]]"

definition jumped :: "grid \<Rightarrow> int \<times> int \<Rightarrow> int \<times> int \<Rightarrow> grid" where
  "jumped b pos d =
     upd (upd (upd b (fst pos) (snd pos) 0) (fst pos + fst d) (snd pos + snd d) 0)
         (fst pos + 2 * fst d) (snd pos + 2 * snd d) 1"

definition applied :: "grid \<Rightarrow> move \<Rightarrow> grid" where
  "applied b m = (case apply_move b m of Inl e \<Rightarrow> b | Inr b' \<Rightarrow> b')"

definition mask :: "grid \<Rightarrow> bool list list" where
  "mask b = map (map (\<lambda>v. v = - 1)) b"

definition ind :: "int \<Rightarrow> int" where
  "ind c = (if c = 1 then 1 else 0)"

definition succ_of :: "grid \<Rightarrow> move \<Rightarrow> int \<times> int \<times> grid" where
  "succ_of b m = (fst m, snd m, applied b m)"

text \<open>The weight of a board in the termination argument of the searches.\<close>

definition weight :: "grid \<Rightarrow> nat" where
  "weight b = 133 ^ nat (peg_count b)"

text \<open>The number of legal moves of a node's board, and the sort key built from it.\<close>

definition mobility :: "treenodes \<Rightarrow> nat" where
  "mobility x = (case legal_moves (node_board x) of Inl e \<Rightarrow> 0 | Inr lm \<Rightarrow> length lm)"

definition key_of :: "treenodes \<Rightarrow> rat" where
  "key_of x = 1 / (of_nat (mobility x) + 1)"

text \<open>
  Replaying a move sequence with the move applicator, and playing it with \<open>make_move\<close>,
  which refuses a move that is not legal (\<open>None\<close>).
\<close>

fun replay :: "grid \<Rightarrow> move list \<Rightarrow> error + grid" where
  "replay b [] = Inr b"
| "replay b (m # ms) = ebind (apply_move b m) (\<lambda>b'. replay b' ms)"

fun play :: "grid \<Rightarrow> move list \<Rightarrow> error + grid option" where
  "play b [] = Inr (Some b)"
| "play b (m # ms) =
     ebind (make_move b (fst m) (snd m))
           (\<lambda>res. if fst res then play (snd res) ms else Inr None)"

text \<open>The order the specification claims for \<open>legal_moves\<close>: ascending \<open>from\<close>, then ascending \<open>to\<close>.\<close>

definition ascending_from_to :: "move list \<Rightarrow> bool" where
  "ascending_from_to ms =
     sorted_wrt (\<lambda>m m'. fst m < fst m' \<or> (fst m = fst m' \<and> snd m \<le> snd m')) ms"

text \<open>
  The position in \<open>DIRECTIONS\<close> (up, down, left, right) of the unit step that leads
  from the hole \<open>from\<close> of a move towards its hole \<open>to\<close>.
\<close>

definition direction_index :: "int \<times> int \<Rightarrow> nat" where
  "direction_index d = length (takeWhile (\<lambda>x. x \<noteq> d) DIRECTIONS)"

definition direction_rank :: "move \<Rightarrow> nat" where
  "direction_rank m =
     (case map_of index_to_pos (fst m) of
        None \<Rightarrow> length DIRECTIONS
      | Some p1 \<Rightarrow>
          (case map_of index_to_pos (snd m) of
             None \<Rightarrow> length DIRECTIONS
           | Some p2 \<Rightarrow>
               direction_index ((fst p2 - fst p1) div 2, (snd p2 - snd p1) div 2)))"

definition ascending_from_direction :: "move list \<Rightarrow> bool" where
  "ascending_from_direction ms =
     sorted_wrt (\<lambda>m m'. fst m < fst m' \<or>
                         (fst m = fst m' \<and> direction_rank m < direction_rank m')) ms"

text \<open>The board reached from the initial board by the moves 15-17, 28-16, 30-28.\<close>

definition board_after_three :: grid where
  "board_after_three =
     [[- 1, - 1, 1, 1, 1, - 1, - 1],
      [- 1, - 1, 1, 1, 1, - 1, - 1],
      [1, 1, 1, 1, 1, 1, 1],
      [1, 0, 1, 1, 1, 1, 1],
      [1, 1, 0, 1, 1, 1, 1],
      [- 1, - 1, 1, 0, 0, - 1, - 1],
      [- 1, - 1, 1, 1, 1, - 1, - 1]]"

text \<open>A small board: pegs in holes 15 and 16 only.\<close>

definition two_pegs :: grid where
  "two_pegs =
     [[- 1, - 1, 0, 0, 0, - 1, - 1],
      [- 1, - 1, 0, 0, 0, - 1, - 1],
      [0, 0, 0, 0, 0, 0, 0],
      [0, 1, 1, 0, 0, 0, 0],
      [0, 0, 0, 0, 0, 0, 0],
      [- 1, - 1, 0, 0, 0, - 1, - 1],
      [- 1, - 1, 0, 0, 0, - 1, - 1]]"

definition peg_at_17 :: grid where
  "peg_at_17 =
     [[- 1, - 1, 0, 0, 0, - 1, - 1],
      [- 1, - 1, 0, 0, 0, - 1, - 1],
      [0, 0, 0, 0, 0, 0, 0],
      [0, 0, 0, 1, 0, 0, 0],
      [0, 0, 0, 0, 0, 0, 0],
      [- 1, - 1, 0, 0, 0, - 1, - 1],
      [- 1, - 1, 0, 0, 0, - 1, - 1]]"

definition peg_at_14 :: grid where
  "peg_at_14 =
     [[- 1, - 1, 0, 0, 0, - 1, - 1],
      [- 1, - 1, 0, 0, 0, - 1, - 1],
      [0, 0, 0, 0, 0, 0, 0],
      [1, 0, 0, 0, 0, 0, 0],
      [0, 0, 0, 0, 0, 0, 0],
      [- 1, - 1, 0, 0, 0, - 1, - 1],
      [- 1, - 1, 0, 0, 0, - 1, - 1]]"

text \<open>What holds of every entry \<open>(board, moves)\<close> of test.py's queue, for the start board \<open>b0\<close>.\<close>

definition entry_ok :: "grid \<Rightarrow> grid \<times> move list \<Rightarrow> bool" where
  "entry_ok b0 x \<longleftrightarrow>
     well_formed (fst x) \<and> play b0 (snd x) = Inr (Some (fst x)) \<and> replay b0 (snd x) = Inr (fst x)"

text \<open>The keys of the boards already taken and of those waiting are distinct and all marked visited.\<close>

definition keys_ok :: "grid list \<Rightarrow> grid list \<Rightarrow> pyobj set \<Rightarrow> bool" where
  "keys_ok shown waiting visited \<longleftrightarrow>
     distinct (map serialize (shown @ waiting)) \<and> serialize ` set (shown @ waiting) \<subseteq> visited"

text \<open>
  A node of a depth-first run from \<open>b0\<close>: the root holds \<open>b0\<close>, no parent and no
  move; any other node holds the board obtained from its parent's board by its move,
  which is a legal move there.  All boards on the way are well formed.
\<close>

fun node_ok :: "grid \<Rightarrow> treenodes \<Rightarrow> bool" where
  "node_ok b0 (Treenodes b p m) =
     (well_formed b \<and>
      (case p of
         None \<Rightarrow> m = None \<and> b = b0
       | Some q \<Rightarrow>
           node_ok b0 q \<and>
           (case m of
              None \<Rightarrow> False
            | Some mv \<Rightarrow> mv \<in> set (moves_list (node_board q) index_to_pos) \<and>
                         b = applied (node_board q) mv)))"

text \<open>The moves printed by \<open>print_path\<close>, in order.\<close>

definition path_moves :: "(grid \<times> move option) list \<Rightarrow> move list" where
  "path_moves steps = List.map_filter snd steps"

text \<open>The kinds of object held by HDFS.py's lists \<open>explored\<close> and \<open>chechked_boards\<close>.\<close>

definition only_nodes :: "pyobj list \<Rightarrow> bool" where
  "only_nodes xs \<longleftrightarrow> (\<forall>x \<in> set xs. case x of PyNode n \<Rightarrow> True | _ \<Rightarrow> False)"

definition only_tuples :: "pyobj list \<Rightarrow> bool" where
  "only_tuples xs \<longleftrightarrow> (\<forall>x \<in> set xs. case x of PyTuple b \<Rightarrow> True | _ \<Rightarrow> False)"

definition steps_of :: "treenodes \<Rightarrow> (grid \<times> move option) list" where
  "steps_of n = map (\<lambda>s. (node_board s, node_move s)) (rev (ancestors n))"

text \<open>
  The first 25 moves of the depth-first run from the initial board, and the board they
  lead to (seven pegs), which is the 26th node the run takes from the frontier.
\<close>

definition descent :: "move list" where
  "descent =
     [(5, 17), (8, 10), (23, 9), (25, 23), (11, 25), (13, 11), (28, 16), (9, 23), (14, 16),
      (1, 9), (3, 1), (27, 13), (6, 18), (18, 20), (13, 27), (30, 18), (27, 25), (16, 28),
      (32, 24), (10, 8), (7, 9), (21, 23), (28, 16), (16, 4), (1, 9)]"

definition seven_pegs :: grid where
  "seven_pegs =
     [[- 1, - 1, 0, 0, 0, - 1, - 1],
      [- 1, - 1, 0, 0, 0, - 1, - 1],
      [0, 0, 1, 0, 0, 0, 0],
      [0, 0, 0, 1, 1, 0, 0],
      [0, 0, 0, 1, 1, 0, 0],
      [- 1, - 1, 0, 0, 0, - 1, - 1],
      [- 1, - 1, 1, 0, 1, - 1, - 1]]"

text \<open>
  The order the specification claims among children with equal numbers of legal moves:
  ascending \<open>from\<close>, then ascending \<open>to\<close>.  The list pairs each child's move with its
  number of legal moves, in the order the children are explored.
\<close>

definition ties_ascending_from_to :: "(move \<times> nat) list \<Rightarrow> bool" where
  "ties_ascending_from_to xs =
     sorted_wrt (\<lambda>x y. snd x = snd y \<longrightarrow>
                   (fst (fst x) < fst (fst y) \<or>
                    (fst (fst x) = fst (fst y) \<and> snd (fst x) \<le> snd (fst y)))) xs"

text \<open>A small board with two independent jumps: pegs in holes 1, 2, 31 and 32.\<close>

definition four_pegs :: grid where
  "four_pegs =
     [[- 1, - 1, 1, 1, 0, - 1, - 1],
      [- 1, - 1, 0, 0, 0, - 1, - 1],
      [0, 0, 0, 0, 0, 0, 0],
      [0, 0, 0, 0, 0, 0, 0],
      [0, 0, 0, 0, 0, 0, 0],
      [- 1, - 1, 0, 0, 0, - 1, - 1],
      [- 1, - 1, 1, 1, 0, - 1, - 1]]"

definition after_1_3 :: grid where
  "after_1_3 =
     [[- 1, - 1, 0, 0, 1, - 1, - 1],
      [- 1, - 1, 0, 0, 0, - 1, - 1],
      [0, 0, 0, 0, 0, 0, 0],
      [0, 0, 0, 0, 0, 0, 0],
      [0, 0, 0, 0, 0, 0, 0],
      [- 1, - 1, 0, 0, 0, - 1, - 1],
      [- 1, - 1, 1, 1, 0, - 1, - 1]]"

definition after_31_33 :: grid where
  "after_31_33 =
     [[- 1, - 1, 1, 1, 0, - 1, - 1],
      [- 1, - 1, 0, 0, 0, - 1, - 1],
      [0, 0, 0, 0, 0, 0, 0],
      [0, 0, 0, 0, 0, 0, 0],
      [0, 0, 0, 0, 0, 0, 0],
      [- 1, - 1, 0, 0, 0, - 1, - 1],
      [- 1, - 1, 0, 0, 1, - 1, - 1]]"

definition after_both :: grid where
  "after_both =
     [[- 1, - 1, 0, 0, 1, - 1, - 1],
      [- 1, - 1, 0, 0, 0, - 1, - 1],
      [0, 0, 0, 0, 0, 0, 0],
      [0, 0, 0, 0, 0, 0, 0],
      [0, 0, 0, 0, 0, 0, 0],
      [- 1, - 1, 0, 0, 0, - 1, - 1],
      [- 1, - 1, 0, 0, 1, - 1, - 1]]"

section \<open>The tables, computed\<close>

lemma template_cells_eq:
  "map fst template_cells =
     [(0,2),(0,3),(0,4),(1,2),(1,3),(1,4),
      (2,0),(2,1),(2,2),(2,3),(2,4),(2,5),(2,6),
      (3,0),(3,1),(3,2),(3,3),(3,4),(3,5),(3,6),
      (4,0),(4,1),(4,2),(4,3),(4,4),(4,5),(4,6),
      (5,2),(5,3),(5,4),(6,2),(6,3),(6,4)]"
  by (simp add: template_cells_def TEMPLATE_def py_enumerate_def upt_rec)


lemma index_to_pos_eq:
  "index_to_pos =
     [(1,(0,2)),(2,(0,3)),(3,(0,4)),(4,(1,2)),(5,(1,3)),(6,(1,4)),
      (7,(2,0)),(8,(2,1)),(9,(2,2)),(10,(2,3)),(11,(2,4)),(12,(2,5)),(13,(2,6)),
      (14,(3,0)),(15,(3,1)),(16,(3,2)),(17,(3,3)),(18,(3,4)),(19,(3,5)),(20,(3,6)),
      (21,(4,0)),(22,(4,1)),(23,(4,2)),(24,(4,3)),(25,(4,4)),(26,(4,5)),(27,(4,6)),
      (28,(5,2)),(29,(5,3)),(30,(5,4)),(31,(6,2)),(32,(6,3)),(33,(6,4))]"
  unfolding index_to_pos_def template_cells_eq
  using arg_cong[OF template_cells_eq, of length]
  by (simp add: upt_rec)

lemma pos_to_index_eq: "pos_to_index = map (\<lambda>(i, p). (p, i)) index_to_pos"
  by (simp add: pos_to_index_def index_to_pos_def zip_map_fst_snd zip_commute[of "map fst template_cells"] del: upt_Suc)

lemma board_eq:
  "board =
     [[-1,-1, 1, 1, 1,-1,-1],
      [-1,-1, 1, 1, 1,-1,-1],
      [ 1, 1, 1, 1, 1, 1, 1],
      [ 1, 1, 1, 0, 1, 1, 1],
      [ 1, 1, 1, 1, 1, 1, 1],
      [-1,-1, 1, 1, 1,-1,-1],
      [-1,-1, 1, 1, 1,-1,-1]]"
  by code_simp

lemma distinct_index_to_pos: "distinct (map fst index_to_pos)" "distinct (map snd index_to_pos)"
  by (simp_all add: index_to_pos_eq)

lemma map_of_swap:
  "distinct (map fst xs) \<Longrightarrow> distinct (map snd xs) \<Longrightarrow>
   map_of (map (\<lambda>(i, p). (p, i)) xs) p = Some i \<longleftrightarrow> map_of xs i = Some p"
  by (induction xs) (auto simp: rev_image_eqI dest: map_of_SomeD)

lemma pos_index_inverse: "map_of pos_to_index p = Some i \<longleftrightarrow> map_of index_to_pos i = Some p"
  unfolding pos_to_index_eq by (rule map_of_swap[OF distinct_index_to_pos])



lemma holes_in_grid: "(i, (r, c)) \<in> set index_to_pos \<Longrightarrow> in_grid r c"
  by (auto simp: index_to_pos_eq in_grid_def)

lemma in_grid_cases:
  "in_grid r c \<Longrightarrow> (r = 0 \<or> r = 1 \<or> r = 2 \<or> r = 3 \<or> r = 4 \<or> r = 5 \<or> r = 6) \<and>
                   (c = 0 \<or> c = 1 \<or> c = 2 \<or> c = 3 \<or> c = 4 \<or> c = 5 \<or> c = 6)"
  unfolding in_grid_def by arith

lemma hole_iff_board:
  assumes "in_grid r c"
  shows "(map_of pos_to_index (r, c) \<noteq> None) = (peek board r c \<noteq> - 1)"
  using in_grid_cases[OF assms]
  by (elim conjE disjE) (simp_all add: pos_to_index_eq index_to_pos_eq board_eq peek_def)


lemma ebind_simps [simp]: "ebind (Inl e) f = Inl e" "ebind (Inr x) f = f x"
  by (simp_all add: ebind_def)

lemma py_index_nat: "0 \<le> i \<Longrightarrow> py_index xs i = (if i < int (length xs) then Some (nat i) else None)"
  by (simp add: py_index_def)

lemma py_get_nat: "0 \<le> i \<Longrightarrow> i < int (length xs) \<Longrightarrow> py_get xs i = Inr (xs ! nat i)"
  by (simp add: py_get_def py_index_nat)

lemma py_set_nat: "0 \<le> i \<Longrightarrow> i < int (length xs) \<Longrightarrow> py_set xs i v = Inr (xs[nat i := v])"
  by (simp add: py_set_def py_index_nat)

lemma py_get_Inr_nat: "0 \<le> i \<Longrightarrow> py_get xs i = Inr v \<Longrightarrow> i < int (length xs) \<and> v = xs ! nat i"
  by (auto simp: py_get_def py_index_nat split: if_splits)


lemma wf_shape7: "well_formed b \<Longrightarrow> shape7 b"
proof -
  assume wf: "well_formed b"
  then have eq: "map (map (\<lambda>v. v = - 1)) b = map (map (\<lambda>v. v = - 1)) board"
    by (simp add: well_formed_def)
  have len: "length b = 7"
    using arg_cong[OF eq, of length] by (simp add: board_eq)
  have "length row = 7" if "row \<in> set b" for row
  proof -
    from that obtain k where k: "k < length b" "row = b ! k" by (auto simp: in_set_conv_nth)
    have "map (\<lambda>v. v = - 1) (b ! k) = map (map (\<lambda>v. v = - 1)) board ! k"
      using k(1) arg_cong[OF eq, of "\<lambda>xs. xs ! k"] by simp
    moreover have "length (map (map (\<lambda>v. v = - 1)) board ! k) = 7"
      using k(1) len by (auto simp: board_eq nth_Cons split: nat.splits)
    ultimately show ?thesis using k(2) by (metis length_map)
  qed
  with len show ?thesis by (simp add: shape7_def)
qed

lemma shape7_row: "shape7 b \<Longrightarrow> 0 \<le> r \<Longrightarrow> r < 7 \<Longrightarrow> length (b ! nat r) = 7"
  by (simp add: shape7_def)

lemma shape7_cell:
  assumes "shape7 b" "in_grid r c"
  shows "cell b r c = Inr (peek b r c)"
proof -
  have r: "0 \<le> r" "r < 7" "0 \<le> c" "c < 7" using assms(2) by (auto simp: in_grid_def)
  have "py_get b r = Inr (b ! nat r)" using assms(1) r by (simp add: py_get_nat shape7_def)
  moreover have "py_get (b ! nat r) c = Inr (b ! nat r ! nat c)"
    using shape7_row[OF assms(1) r(1,2)] r by (simp add: py_get_nat)
  ultimately show ?thesis by (simp add: cell_def peek_def)
qed

lemma wf_mask:
  assumes "well_formed b" "in_grid r c"
  shows "(peek b r c = - 1) = (peek board r c = - 1)"
proof -
  from assms(1) have eq: "map (map (\<lambda>v. v = - 1)) b = map (map (\<lambda>v. v = - 1)) board"
    by (simp add: well_formed_def)
  have s: "shape7 b" "shape7 board" using assms(1) by (simp_all add: wf_shape7) (simp add: shape7_def board_eq)
  have r: "nat r < 7" "nat c < 7" using assms(2) by (auto simp: in_grid_def)
  have "map (map (\<lambda>v. v = - 1)) b ! nat r ! nat c = (peek b r c = - 1)"
    using s(1) r by (simp add: shape7_def peek_def)
  moreover have "map (map (\<lambda>v. v = - 1)) board ! nat r ! nat c = (peek board r c = - 1)"
    using s(2) r by (simp add: shape7_def peek_def)
  ultimately show ?thesis using eq by simp
qed

lemma wf_values:
  assumes "well_formed b" "in_grid r c"
  shows "peek b r c = - 1 \<or> peek b r c = 0 \<or> peek b r c = 1"
proof -
  have s: "shape7 b" using assms(1) by (rule wf_shape7)
  have r: "nat r < 7" "nat c < 7" using assms(2) by (auto simp: in_grid_def)
  have "b ! nat r \<in> set b" using s r by (simp add: shape7_def)
  moreover from this have "b ! nat r ! nat c \<in> set (b ! nat r)" using s r by (simp add: shape7_def)
  ultimately show ?thesis using assms(1) by (auto simp: well_formed_def peek_def)
qed

lemma wf_hole_iff:
  "well_formed b \<Longrightarrow> in_grid r c \<Longrightarrow> (map_of pos_to_index (r, c) \<noteq> None) = (peek b r c \<noteq> - 1)"
  using hole_iff_board[of r c] wf_mask[of b r c] by blast


lemma jump_target_Some_iff:
  "jump_target b (r, c) (dr, dc) = Inr (Some t) \<longleftrightarrow>
     in_grid (r + 2 * dr) (c + 2 * dc) \<and> cell b (r + dr) (c + dc) = Inr 1 \<and>
     cell b (r + 2 * dr) (c + 2 * dc) = Inr 0 \<and>
     map_of pos_to_index (r + 2 * dr, c + 2 * dc) = Some t"
  by (auto simp: jump_target_def Let_def ROWS_def COLS_def in_grid_def ebind_def py_lookup_def
           split: sum.splits option.splits if_splits)



lemma targets_simps:
  "targets b pos [] = []"
  "targets b pos (d # ds) =
     (case jump_target b pos d of Inr (Some t) \<Rightarrow> t # targets b pos ds | _ \<Rightarrow> targets b pos ds)"
  by (simp_all add: targets_def List.map_filter_simps split: sum.splits option.splits)

lemma moves_from_eq:
  "moves_from b frm pos ds acc = Inr ms \<Longrightarrow> ms = acc @ map (Pair frm) (targets b pos ds)"
proof (induction ds arbitrary: acc)
  case Nil
  then show ?case by (simp add: targets_simps)
next
  case (Cons d ds)
  show ?case
  proof (cases "jump_target b pos d")
    case (Inl e)
    with Cons.prems show ?thesis by simp
  next
    case (Inr res)
    show ?thesis
    proof (cases res)
      case None
      with Inr Cons.prems have "moves_from b frm pos ds acc = Inr ms" by simp
      from Cons.IH[OF this] Inr None show ?thesis by (simp add: targets_simps)
    next
      case (Some t)
      with Inr Cons.prems have "moves_from b frm pos ds (acc @ [(frm, t)]) = Inr ms" by simp
      from Cons.IH[OF this] Inr Some show ?thesis by (simp add: targets_simps)
    qed
  qed
qed

lemma scan_holes_eq:
  "scan_holes b hs acc = Inr ms \<Longrightarrow> ms = acc @ moves_list b hs"
proof (induction hs arbitrary: acc)
  case Nil
  then show ?case by (simp add: moves_list_def)
next
  case (Cons h hs)
  obtain frm r c where h: "h = (frm, (r, c))" by (cases h) auto
  show ?case
  proof (cases "cell b r c = Inr 1")
    case True
    with Cons.prems h obtain acc' where
      a: "moves_from b frm (r, c) DIRECTIONS acc = Inr acc'" and s: "scan_holes b hs acc' = Inr ms"
      by (auto split: sum.splits)
    from Cons.IH[OF s] moves_from_eq[OF a] True h show ?thesis
      by (simp add: moves_list_def)
  next
    case False
    with Cons.prems h have "scan_holes b hs acc = Inr ms"
      by (auto split: sum.splits if_splits)
    from Cons.IH[OF this] False h show ?thesis by (simp add: moves_list_def)
  qed
qed

lemma legal_moves_eq: "legal_moves b = Inr ms \<Longrightarrow> ms = moves_list b index_to_pos"
  unfolding legal_moves_def by (drule scan_holes_eq) simp

lemma set_targets:
  "set (targets b pos ds) = {t. \<exists>d \<in> set ds. jump_target b pos d = Inr (Some t)}"
  by (induction ds) (auto simp: targets_simps split: sum.splits option.splits)

lemma set_moves_list:
  "set (moves_list b hs) =
     {(f, t). \<exists>r c. (f, (r, c)) \<in> set hs \<and> cell b r c = Inr 1 \<and>
                 (\<exists>d \<in> set DIRECTIONS. jump_target b (r, c) d = Inr (Some t))}"
  by (auto simp: moves_list_def set_targets split: if_splits) force

text \<open>No exception on a well-formed board.\<close>

lemma wf_jump_target:
  assumes "well_formed b" "in_grid r c"
  shows "\<exists>res. jump_target b (r, c) (dr, dc) = Inr res"
proof (cases "in_grid (r + 2 * dr) (c + 2 * dc)")
  case False
  then show ?thesis by (auto simp: jump_target_def in_grid_def ROWS_def COLS_def Let_def)
next
  case True
  have s: "shape7 b" using assms(1) by (rule wf_shape7)
  have m: "in_grid (r + dr) (c + dc)" using assms(2) True unfolding in_grid_def by arith
  have hole: "peek b (r + 2 * dr) (c + 2 * dc) = 0 \<Longrightarrow> \<exists>i. map_of pos_to_index (r + 2 * dr, c + 2 * dc) = Some i"
    using wf_hole_iff[OF assms(1) True] by auto
  show ?thesis
    using True hole
    by (auto simp: jump_target_def Let_def shape7_cell[OF s m] shape7_cell[OF s True] py_lookup_def
                   in_grid_def ROWS_def COLS_def)
qed

lemma wf_moves_from:
  "well_formed b \<Longrightarrow> in_grid r c \<Longrightarrow> \<exists>ms. moves_from b frm (r, c) ds acc = Inr ms"
proof (induction ds arbitrary: acc)
  case Nil
  then show ?case by simp
next
  case (Cons d ds)
  obtain dr dc where d: "d = (dr, dc)" by (cases d)
  from wf_jump_target[OF Cons.prems, of dr dc] obtain res where "jump_target b (r, c) d = Inr res"
    using d by auto
  then show ?case using Cons.IH[OF Cons.prems] by (cases res) auto
qed

lemma wf_scan_holes:
  "well_formed b \<Longrightarrow> \<forall>(i, (r, c)) \<in> set hs. in_grid r c \<Longrightarrow> \<exists>ms. scan_holes b hs acc = Inr ms"
proof (induction hs arbitrary: acc)
  case Nil
  then show ?case by simp
next
  case (Cons h hs)
  obtain frm r c where h: "h = (frm, (r, c))" by (cases h) auto
  have g: "in_grid r c" using Cons.prems(2) h by auto
  have s: "shape7 b" using Cons.prems(1) by (rule wf_shape7)
  have rest: "\<exists>ms. scan_holes b hs acc' = Inr ms" for acc'
    using Cons.IH[OF Cons.prems(1)] Cons.prems(2) by auto
  from wf_moves_from[OF Cons.prems(1) g] obtain acc' where
    "moves_from b frm (r, c) DIRECTIONS acc = Inr acc'" by blast
  then show ?case using rest h by (auto simp: shape7_cell[OF s g])
qed

lemma wf_legal_moves: "well_formed b \<Longrightarrow> legal_moves b = Inr (moves_list b index_to_pos)"
proof -
  assume wf: "well_formed b"
  have "\<forall>(i, (r, c)) \<in> set index_to_pos. in_grid r c" using holes_in_grid by auto
  from wf_scan_holes[OF wf this] obtain ms where "legal_moves b = Inr ms"
    unfolding legal_moves_def by blast
  with legal_moves_eq show ?thesis by auto
qed



lemma map_of_index_to_pos: "map_of index_to_pos i = Some p \<longleftrightarrow> (i, p) \<in> set index_to_pos"
  using distinct_index_to_pos(1) by (metis map_of_SomeD map_of_is_SomeI)

lemma directions_iff:
  "(dr, dc) \<in> set DIRECTIONS \<longleftrightarrow> (\<bar>dr\<bar> = 1 \<and> dc = 0) \<or> (dr = 0 \<and> \<bar>dc\<bar> = 1)"
  by (auto simp: DIRECTIONS_def)

lemma moves_list_iff_spec:
  "(f, t) \<in> set (moves_list b index_to_pos) \<longleftrightarrow> legal_spec b (f, t)"
proof
  assume "(f, t) \<in> set (moves_list b index_to_pos)"
  then obtain r c dr dc where
    h: "(f, (r, c)) \<in> set index_to_pos" "cell b r c = Inr 1" "(dr, dc) \<in> set DIRECTIONS"
       "jump_target b (r, c) (dr, dc) = Inr (Some t)"
    by (auto simp: set_moves_list)
  from h(4) have j: "cell b (r + dr) (c + dc) = Inr 1" "cell b (r + 2 * dr) (c + 2 * dc) = Inr 0"
      "map_of index_to_pos t = Some (r + 2 * dr, c + 2 * dc)"
    by (simp_all add: jump_target_Some_iff pos_index_inverse)
  have m: "(r + (r + 2 * dr)) div 2 = r + dr" "(c + (c + 2 * dc)) div 2 = c + dc" by simp_all
  from h(3) have d: "(\<bar>r + 2 * dr - r\<bar> = 2 \<and> c + 2 * dc = c) \<or> (r + 2 * dr = r \<and> \<bar>c + 2 * dc - c\<bar> = 2)"
    unfolding directions_iff by auto
  show "legal_spec b (f, t)"
    using h(1,2) j d unfolding legal_spec_def
    by (simp add: map_of_index_to_pos[symmetric] m)
next
  assume "legal_spec b (f, t)"
  then obtain r1 c1 r2 c2 where
    p: "map_of index_to_pos f = Some (r1, c1)" "map_of index_to_pos t = Some (r2, c2)"
       "cell b r1 c1 = Inr 1" "cell b r2 c2 = Inr 0"
       "(\<bar>r2 - r1\<bar> = 2 \<and> c2 = c1) \<or> (r2 = r1 \<and> \<bar>c2 - c1\<bar> = 2)"
       "cell b ((r1 + r2) div 2) ((c1 + c2) div 2) = Inr 1"
    by (auto simp: legal_spec_def split: option.splits)
  define dr where "dr = (r2 - r1) div 2"
  define dc where "dc = (c2 - c1) div 2"
  from p(5) have e: "r2 = r1 + 2 * dr" "c2 = c1 + 2 * dc" "(r1 + r2) div 2 = r1 + dr"
      "(c1 + c2) div 2 = c1 + dc"
    unfolding dr_def dc_def by (elim disjE conjE; simp; arith)+
  from p(5) have d: "(dr, dc) \<in> set DIRECTIONS"
    unfolding directions_iff dr_def dc_def by (elim disjE conjE; simp; arith)
  have g: "in_grid r2 c2" using p(2) holes_in_grid by (simp add: map_of_index_to_pos)
  have "jump_target b (r1, c1) (dr, dc) = Inr (Some t)"
    using p g e by (simp add: jump_target_Some_iff pos_index_inverse)
  with d p(1,3) show "(f, t) \<in> set (moves_list b index_to_pos)"
    by (auto simp: set_moves_list map_of_index_to_pos)
qed

lemma well_formed_board: "well_formed board"
  by (simp add: well_formed_def) (simp add: board_eq)

lemma legal_moves_board: "legal_moves board = Inr [(5, 17), (15, 17), (19, 17), (29, 17)]"
  by code_simp

lemma legal_spec_board: "legal_spec board (5, 17)"
  by code_simp

section \<open>The interactive legality checks\<close>


lemma is_valid_move_wf:
  assumes wf: "well_formed b"
  shows "is_valid_move b f t = Inr (legal_spec b (f, t))"
proof (cases "map_of index_to_pos f")
  case None
  then show ?thesis by (simp add: is_valid_move_def legal_spec_def)
next
  case (Some p1)
  obtain r1 c1 where p1: "p1 = (r1, c1)" by (cases p1)
  show ?thesis
  proof (cases "map_of index_to_pos t")
    case None
    then show ?thesis using Some by (simp add: is_valid_move_def legal_spec_def split: prod.splits)
  next
    case t: (Some p2)
    obtain r2 c2 where p2: "p2 = (r2, c2)" by (cases p2)
    have s: "shape7 b" using wf by (rule wf_shape7)
    have g1: "in_grid r1 c1" and g2: "in_grid r2 c2"
      using Some t p1 p2 holes_in_grid by (auto simp: map_of_index_to_pos)
    have c1: "cell b r1 c1 = Inr (peek b r1 c1)" and c2: "cell b r2 c2 = Inr (peek b r2 c2)"
      using s g1 g2 by (simp_all add: shape7_cell)
    have mr: "\<bar>r2 - r1\<bar> = 2 \<Longrightarrow> in_grid (r1 + (r2 - r1) div 2) c1 \<and> r1 + (r2 - r1) div 2 = (r1 + r2) div 2"
      using g1 g2 unfolding in_grid_def by arith
    have mc: "\<bar>c2 - c1\<bar> = 2 \<Longrightarrow> in_grid r1 (c1 + (c2 - c1) div 2) \<and> c1 + (c2 - c1) div 2 = (c1 + c2) div 2"
      using g1 g2 unfolding in_grid_def by arith
    have m1: "\<bar>r2 - r1\<bar> = 2 \<Longrightarrow> cell b (r1 + (r2 - r1) div 2) c1 = Inr (peek b ((r1 + r2) div 2) c1)"
      using mr shape7_cell[OF s] by metis
    have m2: "\<bar>c2 - c1\<bar> = 2 \<Longrightarrow> cell b r1 (c1 + (c2 - c1) div 2) = Inr (peek b r1 ((c1 + c2) div 2))"
      using mc shape7_cell[OF s] by metis
    have m1': "\<bar>r2 - r1\<bar> = 2 \<Longrightarrow> cell b ((r1 + r2) div 2) c1 = Inr (peek b ((r1 + r2) div 2) c1)"
      using mr shape7_cell[OF s] by metis
    have m2': "\<bar>c2 - c1\<bar> = 2 \<Longrightarrow> cell b r1 ((c1 + c2) div 2) = Inr (peek b r1 ((c1 + c2) div 2))"
      using mc shape7_cell[OF s] by metis
    show ?thesis
      using Some t p1 p2
      by (auto simp: is_valid_move_def legal_spec_def py_lookup_def c1 c2 Let_def m1 m2 m1' m2')
  qed
qed





lemma jump_target_state_Some_iff:
  "jump_target_state st (r, c) (dr, dc) = Inr (Some t) \<longleftrightarrow>
     (\<exists>mi. map_of pos_to_index (r + dr, c + dc) = Some mi \<and> map_of st mi = Some True) \<and>
     map_of pos_to_index (r + 2 * dr, c + 2 * dc) = Some t \<and> map_of st t = Some False"
  by (auto simp: jump_target_state_def Let_def ebind_def py_lookup_def
           split: sum.splits option.splits if_splits)

lemma targets_state_simps:
  "targets_state st pos [] = []"
  "targets_state st pos (d # ds) =
     (case jump_target_state st pos d of Inr (Some t) \<Rightarrow> t # targets_state st pos ds
      | _ \<Rightarrow> targets_state st pos ds)"
  by (simp_all add: targets_state_def List.map_filter_simps split: sum.splits option.splits)

lemma moves_from_state_eq:
  "moves_from_state st i pos ds acc = Inr ms \<Longrightarrow> ms = acc @ map (Pair i) (targets_state st pos ds)"
proof (induction ds arbitrary: acc)
  case Nil
  then show ?case by (simp add: targets_state_simps)
next
  case (Cons d ds)
  show ?case
  proof (cases "jump_target_state st pos d")
    case (Inl e)
    with Cons.prems show ?thesis by simp
  next
    case (Inr res)
    show ?thesis
    proof (cases res)
      case None
      with Inr Cons.prems have "moves_from_state st i pos ds acc = Inr ms" by simp
      from Cons.IH[OF this] Inr None show ?thesis by (simp add: targets_state_simps)
    next
      case (Some t)
      with Inr Cons.prems have "moves_from_state st i pos ds (acc @ [(i, t)]) = Inr ms" by simp
      from Cons.IH[OF this] Inr Some show ?thesis by (simp add: targets_state_simps)
    qed
  qed
qed

lemma scan_state_eq:
  "scan_state st items acc = Inr ms \<Longrightarrow> ms = acc @ moves_list_state st items"
proof (induction items arbitrary: acc)
  case Nil
  then show ?case by (simp add: moves_list_state_def)
next
  case (Cons it items)
  obtain i occ where it: "it = (i, occ)" by (cases it)
  show ?case
  proof (cases occ)
    case False
    with Cons.prems it have "scan_state st items acc = Inr ms" by simp
    from Cons.IH[OF this] False it show ?thesis by (simp add: moves_list_state_def)
  next
    case True
    with Cons.prems it obtain pos acc' where
      p: "map_of index_to_pos i = Some pos"
      and a: "moves_from_state st i pos DIRECTIONS acc = Inr acc'"
      and r: "scan_state st items acc' = Inr ms"
      by (auto simp: py_lookup_def split: sum.splits option.splits)
    from Cons.IH[OF r] moves_from_state_eq[OF a] True it p show ?thesis
      by (simp add: moves_list_state_def)
  qed
qed

lemma set_targets_state:
  "set (targets_state st pos ds) = {t. \<exists>d \<in> set ds. jump_target_state st pos d = Inr (Some t)}"
  by (induction ds) (auto simp: targets_state_simps split: sum.splits option.splits)

lemma set_moves_list_state:
  "set (moves_list_state st items) =
     {(f, t). \<exists>pos. (f, True) \<in> set items \<and> map_of index_to_pos f = Some pos \<and>
                 (\<exists>d \<in> set DIRECTIONS. jump_target_state st pos d = Inr (Some t))}"
proof (induction items)
  case Nil
  then show ?case by (simp add: moves_list_state_def)
next
  case (Cons it items)
  obtain i occ where it: "it = (i, occ)" by (cases it)
  have step: "moves_list_state st (it # items) =
      (if occ then (case map_of index_to_pos i of None \<Rightarrow> []
                    | Some pos \<Rightarrow> map (Pair i) (targets_state st pos DIRECTIONS)) else [])
      @ moves_list_state st items"
    by (simp add: moves_list_state_def it)
  show ?case
    unfolding step set_append Cons.IH
    by (cases occ; cases "map_of index_to_pos i") (auto simp: it set_targets_state; blast)+
qed

lemma wf_state_keys:
  assumes "well_formed_state st"
  shows "distinct (map fst st)" "(map_of st i = None) = (map_of index_to_pos i = None)"
proof -
  from assms have k: "map fst st = map fst index_to_pos" by (simp add: well_formed_state_def)
  show "distinct (map fst st)" using k distinct_index_to_pos(1) by simp
  show "(map_of st i = None) = (map_of index_to_pos i = None)"
    using k by (metis map_of_eq_None_iff set_map)
qed

lemma hole_has_index: "map_of pos_to_index p = Some i \<Longrightarrow> map_of index_to_pos i \<noteq> None"
  by (simp add: pos_index_inverse)

lemma wf_jump_target_state:
  assumes "well_formed_state st"
  shows "\<exists>res. jump_target_state st pos d = Inr res"
proof -
  obtain r c dr dc where p: "pos = (r, c)" "d = (dr, dc)" by (cases pos, cases d) auto
  have k: "map_of pos_to_index q = Some i \<Longrightarrow> \<exists>v. map_of st i = Some v" for q i
    using wf_state_keys(2)[OF assms, of i] hole_has_index[of q i] by auto
  show ?thesis
    unfolding p jump_target_state_def
    by (auto simp: Let_def py_lookup_def dest!: k split: option.splits)
qed

lemma wf_moves_from_state:
  "well_formed_state st \<Longrightarrow> \<exists>ms. moves_from_state st i pos ds acc = Inr ms"
proof (induction ds arbitrary: acc)
  case Nil
  then show ?case by simp
next
  case (Cons d ds)
  from wf_jump_target_state[OF Cons.prems, of pos d] obtain res where
    "jump_target_state st pos d = Inr res" by blast
  then show ?case using Cons.IH[OF Cons.prems] by (cases res) auto
qed

lemma wf_scan_state:
  "well_formed_state st \<Longrightarrow> \<forall>(i, v) \<in> set items. map_of index_to_pos i \<noteq> None \<Longrightarrow>
     \<exists>ms. scan_state st items acc = Inr ms"
proof (induction items arbitrary: acc)
  case Nil
  then show ?case by simp
next
  case (Cons it items)
  obtain i occ where it: "it = (i, occ)" by (cases it)
  from Cons.prems(2) it obtain pos where p: "map_of index_to_pos i = Some pos" by auto
  have rest: "\<exists>ms. scan_state st items acc' = Inr ms" for acc'
    using Cons.IH[OF Cons.prems(1)] Cons.prems(2) by auto
  from wf_moves_from_state[OF Cons.prems(1)] obtain acc' where
    "moves_from_state st i pos DIRECTIONS acc = Inr acc'" by blast
  then show ?case using rest it p by (auto simp: py_lookup_def)
qed

lemma wf_legal_moves_state:
  assumes "well_formed_state st"
  shows "legal_moves_state st = Inr (moves_list_state st st)"
proof -
  have "map_of index_to_pos i \<noteq> None" if "(i, v) \<in> set st" for i v
  proof -
    from that have "i \<in> fst ` set st" by force
    then have "map_of st i \<noteq> None" by (simp add: map_of_eq_None_iff)
    then show ?thesis using wf_state_keys(2)[OF assms, of i] by simp
  qed
  then have "\<forall>(i, v) \<in> set st. map_of index_to_pos i \<noteq> None" by auto
  from wf_scan_state[OF assms this] obtain ms where "legal_moves_state st = Inr ms"
    unfolding legal_moves_state_def by blast
  with scan_state_eq show ?thesis unfolding legal_moves_state_def by fastforce
qed


lemma wf_state_True_iff:
  "well_formed_state st \<Longrightarrow> (f, v) \<in> set st \<longleftrightarrow> map_of st f = Some v"
  using wf_state_keys(1) by (metis map_of_SomeD map_of_is_SomeI)

lemma legal_state_iff:
  "legal_state st (f, t) \<longleftrightarrow>
     (\<exists>r1 c1 r2 c2 mi. map_of st f = Some True \<and> map_of st t = Some False \<and>
        map_of index_to_pos f = Some (r1, c1) \<and> map_of index_to_pos t = Some (r2, c2) \<and>
        ((\<bar>r2 - r1\<bar> = 2 \<and> c2 = c1) \<or> (r2 = r1 \<and> \<bar>c2 - c1\<bar> = 2)) \<and>
        map_of pos_to_index ((r1 + r2) div 2, (c1 + c2) div 2) = Some mi \<and>
        map_of st mi = Some True)"
proof (cases "map_of index_to_pos f")
  case None
  then show ?thesis by (simp add: legal_state_def)
next
  case f: (Some p1)
  show ?thesis
  proof (cases "map_of index_to_pos t")
    case None
    then show ?thesis using f by (simp add: legal_state_def split: prod.splits)
  next
    case t: (Some p2)
    obtain r1 c1 r2 c2 where p: "p1 = (r1, c1)" "p2 = (r2, c2)" by (cases p1, cases p2) auto
    show ?thesis
      by (cases "map_of pos_to_index ((r1 + r2) div 2, (c1 + c2) div 2)")
         (simp_all add: legal_state_def f t p)
  qed
qed

lemma moves_list_state_iff:
  assumes wf: "well_formed_state st"
  shows "(f, t) \<in> set (moves_list_state st st) \<longleftrightarrow> legal_state st (f, t)"
proof
  assume "(f, t) \<in> set (moves_list_state st st)"
  then obtain r c dr dc where
    h: "(f, True) \<in> set st" "map_of index_to_pos f = Some (r, c)" "(dr, dc) \<in> set DIRECTIONS"
       "jump_target_state st (r, c) (dr, dc) = Inr (Some t)"
    by (auto simp: set_moves_list_state)
  from h(4) obtain mi where
    j: "map_of pos_to_index (r + dr, c + dc) = Some mi" "map_of st mi = Some True"
       "map_of index_to_pos t = Some (r + 2 * dr, c + 2 * dc)" "map_of st t = Some False"
    by (auto simp: jump_target_state_Some_iff pos_index_inverse)
  have m: "(r + (r + 2 * dr)) div 2 = r + dr" "(c + (c + 2 * dc)) div 2 = c + dc" by simp_all
  from h(3) have d: "(\<bar>r + 2 * dr - r\<bar> = 2 \<and> c + 2 * dc = c) \<or> (r + 2 * dr = r \<and> \<bar>c + 2 * dc - c\<bar> = 2)"
    unfolding directions_iff by auto
  show "legal_state st (f, t)"
    unfolding legal_state_iff
    using h(1,2) j d by (simp add: wf_state_True_iff[OF wf] m)
next
  assume "legal_state st (f, t)"
  then obtain r1 c1 r2 c2 mi where
    p: "map_of st f = Some True" "map_of st t = Some False"
       "map_of index_to_pos f = Some (r1, c1)" "map_of index_to_pos t = Some (r2, c2)"
       "(\<bar>r2 - r1\<bar> = 2 \<and> c2 = c1) \<or> (r2 = r1 \<and> \<bar>c2 - c1\<bar> = 2)"
       "map_of pos_to_index ((r1 + r2) div 2, (c1 + c2) div 2) = Some mi" "map_of st mi = Some True"
    unfolding legal_state_iff by blast
  define dr where "dr = (r2 - r1) div 2"
  define dc where "dc = (c2 - c1) div 2"
  from p(5) have e: "r2 = r1 + 2 * dr" "c2 = c1 + 2 * dc" "(r1 + r2) div 2 = r1 + dr"
      "(c1 + c2) div 2 = c1 + dc"
    unfolding dr_def dc_def by (elim disjE conjE; simp; arith)+
  from p(5) have d: "(dr, dc) \<in> set DIRECTIONS"
    unfolding directions_iff dr_def dc_def by (elim disjE conjE; simp; arith)
  have "jump_target_state st (r1, c1) (dr, dc) = Inr (Some t)"
    using p e by (auto simp: jump_target_state_Some_iff pos_index_inverse)
  with d p(1,3) show "(f, t) \<in> set (moves_list_state st st)"
    by (auto simp: set_moves_list_state wf_state_True_iff[OF wf])
qed

lemma is_valid_move_state_wf:
  assumes wf: "well_formed_state st"
  shows "is_valid_move_state st f t = Inr (legal_state st (f, t))"
proof (cases "map_of st f = None \<or> map_of st t = None")
  case True
  then show ?thesis by (auto simp: is_valid_move_state_def legal_state_def)
next
  case False
  then obtain v1 v2 where v: "map_of st f = Some v1" "map_of st t = Some v2" by auto
  from v wf_state_keys(2)[OF wf] obtain r1 c1 r2 c2 where
    p: "map_of index_to_pos f = Some (r1, c1)" "map_of index_to_pos t = Some (r2, c2)"
    by (metis option.exhaust option.distinct(1) surj_pair)
  have e: "r1 + (r2 - r1) div 2 = (r1 + r2) div 2" if "\<bar>r2 - r1\<bar> = 2" using that by arith
  have e': "c1 + (c2 - c1) div 2 = (c1 + c2) div 2" if "\<bar>c2 - c1\<bar> = 2" using that by arith
  have k: "map_of pos_to_index q = Some i \<Longrightarrow> \<exists>v. map_of st i = Some v" for q i
    using wf_state_keys(2)[OF wf, of i] hole_has_index[of q i] by auto
  show ?thesis
  proof (cases "v1 \<and> \<not> v2")
    case False
    then show ?thesis using v p by (auto simp: is_valid_move_state_def legal_state_def py_lookup_def)
  next
    case True
    show ?thesis
    proof (cases "\<bar>r2 - r1\<bar> = 2 \<and> c2 = c1")
      case row: True
      then have c: "(c1 + c2) div 2 = c1" by simp
      show ?thesis
        using v p True row e k[of "((r1 + r2) div 2, c1)"]
        by (auto simp: is_valid_move_state_def legal_state_def py_lookup_def Let_def c
                 split: option.splits)
    next
      case nrow: False
      show ?thesis
      proof (cases "\<bar>c2 - c1\<bar> = 2 \<and> r2 = r1")
        case col: True
        then have c: "(r1 + r2) div 2 = r1" by simp
        show ?thesis
          using v p True nrow col e' k[of "(r1, (c1 + c2) div 2)"]
          by (auto simp: is_valid_move_state_def legal_state_def py_lookup_def Let_def c
                   split: option.splits)
      next
        case False
        then show ?thesis
          using v p True nrow
          by (auto simp: is_valid_move_state_def legal_state_def py_lookup_def Let_def)
      qed
    qed
  qed
qed

lemma state_eq:
  "state = [(1, True), (2, True), (3, True), (4, True), (5, True), (6, True),
  (7, True), (8, True), (9, True), (10, True), (11, True), (12, True),
  (13, True), (14, True), (15, True), (16, True), (17, False), (18, True),
  (19, True), (20, True), (21, True), (22, True), (23, True), (24, True),
  (25, True), (26, True), (27, True), (28, True), (29, True), (30, True),
  (31, True), (32, True), (33, True)]"
  by (simp add: state_def index_to_pos_eq TEMPLATE_def)

lemma map_fst_tagged: "map fst (map (\<lambda>(i, p). (i, f i p)) xs) = map fst xs"
  by (induction xs) auto

lemma well_formed_state_state: "well_formed_state state"
  unfolding well_formed_state_def state_def case_prod_beta
  using map_fst_tagged[of "\<lambda>i p. (TEMPLATE ! nat (fst p)) ! nat (snd p) = CHR ''x''" index_to_pos]
  by (simp add: case_prod_beta)

lemma is_valid_move_examples:
  "is_valid_move board 5 17 = Inr True" "is_valid_move board 5 19 = Inr False"
  by (simp_all add: is_valid_move_def board_eq index_to_pos_eq py_lookup_def Let_def cell_def py_get_def py_index_def)

lemma is_valid_move_state_examples:
  "is_valid_move_state state 5 17 = Inr True" "is_valid_move_state state 5 19 = Inr False"
  by (simp_all add: is_valid_move_state_def state_eq index_to_pos_eq pos_to_index_eq py_lookup_def Let_def)

section \<open>Writing cells\<close>

lemma cell_valid: "0 \<le> r \<Longrightarrow> 0 \<le> c \<Longrightarrow> cell b r c = Inr v \<Longrightarrow> valid b r c \<and> peek b r c = v"
  by (auto simp: cell_def valid_def peek_def ebind_def py_get_def py_index_def
           split: sum.splits option.splits if_splits)

lemma py_get_nat': "0 \<le> i \<Longrightarrow> nat i < length xs \<Longrightarrow> py_get xs i = Inr (xs ! nat i)"
  by (simp add: py_get_nat)

lemma py_set_nat': "0 \<le> i \<Longrightarrow> nat i < length xs \<Longrightarrow> py_set xs i v = Inr (xs[nat i := v])"
  by (simp add: py_set_nat)

lemma valid_cell: "valid b r c \<Longrightarrow> cell b r c = Inr (peek b r c)"
  by (simp add: cell_def valid_def peek_def py_get_nat')

lemma set_cell_valid: "valid b r c \<Longrightarrow> set_cell b r c v = Inr (upd b r c v)"
  by (simp add: set_cell_def valid_def upd_def py_get_nat' py_set_nat')

lemma valid_upd [simp]: "valid (upd b r c v) r' c' = valid b r' c'"
proof (cases "nat r' = nat r \<and> nat r < length b")
  case True
  then show ?thesis by (simp add: valid_def upd_def)
next
  case False
  then show ?thesis by (auto simp: valid_def upd_def)
qed

lemma peek_upd:
  "valid b r c \<Longrightarrow> valid b r' c' \<Longrightarrow>
     peek (upd b r c v) r' c' = (if r' = r \<and> c' = c then v else peek b r' c')"
  by (auto simp: valid_def upd_def peek_def nth_list_update)

lemma peg_count_rows: "peg_count b = sum_list (map (\<lambda>row. sum_list (map ind row)) b)"
  unfolding peg_count_def ind_def by (induction b) auto

lemma sum_list_map_update:
  fixes f :: "'a \<Rightarrow> int"
  shows "i < length xs \<Longrightarrow> sum_list (map f (xs[i := y])) = sum_list (map f xs) - f (xs ! i) + f y"
proof (induction xs arbitrary: i)
  case Nil
  then show ?case by simp
next
  case (Cons x xs)
  then show ?case by (cases i) auto
qed

lemma peg_count_upd:
  assumes "valid b r c"
  shows "peg_count (upd b r c v) = peg_count b - ind (peek b r c) + ind v"
proof -
  from assms have r: "nat r < length b" and c: "nat c < length (b ! nat r)"
    by (auto simp: valid_def)
  show ?thesis
    unfolding peg_count_rows upd_def peek_def
    by (simp add: sum_list_map_update[OF r] sum_list_map_update[OF c])
qed

lemma mask_upd:
  assumes "valid b r c" "peek b r c \<noteq> - 1" "v \<noteq> - 1"
  shows "mask (upd b r c v) = mask b"
proof -
  from assms(1) have r: "nat r < length b" and c: "nat c < length (b ! nat r)"
    by (auto simp: valid_def)
  have row: "map (\<lambda>v. v = - 1) ((b ! nat r)[nat c := v]) = map (\<lambda>v. v = - 1) (b ! nat r)"
    using c assms(2,3) by (simp add: map_update peek_def list_eq_iff_nth_eq nth_list_update)
  show ?thesis
    unfolding mask_def upd_def using r row
    by (simp add: map_update list_eq_iff_nth_eq nth_list_update)
qed

lemma set_upd_values:
  assumes "valid b r c" "\<forall>row \<in> set b. \<forall>x \<in> set row. P x" "P v"
  shows "\<forall>row \<in> set (upd b r c v). \<forall>x \<in> set row. P x"
proof -
  from assms(1) have r: "nat r < length b" by (auto simp: valid_def)
  have "\<forall>x \<in> set ((b ! nat r)[nat c := v]). P x"
    using assms(2,3) r by (metis insert_iff nth_mem set_update_subset_insert subsetD)
  then show ?thesis
    unfolding upd_def using assms(2)
    by (metis insert_iff set_update_subset_insert subsetD)
qed

section \<open>Applying an enumerated move\<close>

lemma mid_div: "(r + (r + 2 * dr)) div 2 = r + (dr::int)"
  by simp

lemma jump_facts:
  assumes "(f, (r, c)) \<in> set index_to_pos" "(dr, dc) \<in> set DIRECTIONS"
    "cell b r c = Inr 1" "jump_target b (r, c) (dr, dc) = Inr (Some t)"
  shows "valid b r c" "valid b (r + dr) (c + dc)" "valid b (r + 2 * dr) (c + 2 * dc)"
    "peek b r c = 1" "peek b (r + dr) (c + dc) = 1" "peek b (r + 2 * dr) (c + 2 * dc) = 0"
    "map_of index_to_pos f = Some (r, c)" "map_of index_to_pos t = Some (r + 2 * dr, c + 2 * dc)"
proof -
  have g: "in_grid r c" using assms(1) by (rule holes_in_grid)
  from assms(4) have j: "in_grid (r + 2 * dr) (c + 2 * dc)" "cell b (r + dr) (c + dc) = Inr 1"
    "cell b (r + 2 * dr) (c + 2 * dc) = Inr 0"
    "map_of pos_to_index (r + 2 * dr, c + 2 * dc) = Some t"
    by (simp_all add: jump_target_Some_iff)
  have m: "0 \<le> r + dr" "0 \<le> c + dc" using g j(1) unfolding in_grid_def by arith+
  have n: "0 \<le> r" "0 \<le> c" "0 \<le> r + 2 * dr" "0 \<le> c + 2 * dc"
    using g j(1) unfolding in_grid_def by auto
  show "valid b r c" "peek b r c = 1" using cell_valid[OF n(1,2) assms(3)] by auto
  show "valid b (r + dr) (c + dc)" "peek b (r + dr) (c + dc) = 1"
    using cell_valid[OF m j(2)] by auto
  show "valid b (r + 2 * dr) (c + 2 * dc)" "peek b (r + 2 * dr) (c + 2 * dc) = 0"
    using cell_valid[OF n(3,4) j(3)] by auto
  show "map_of index_to_pos f = Some (r, c)" using assms(1) by (simp add: map_of_index_to_pos)
  show "map_of index_to_pos t = Some (r + 2 * dr, c + 2 * dc)"
    using j(4) by (simp add: pos_index_inverse)
qed

lemma direction_nonzero: "(dr, dc) \<in> set DIRECTIONS \<Longrightarrow> dr \<noteq> 0 \<or> dc \<noteq> 0"
  by (auto simp: DIRECTIONS_def)

lemma apply_move_legal:
  assumes "(f, (r, c)) \<in> set index_to_pos" "(dr, dc) \<in> set DIRECTIONS"
    "cell b r c = Inr 1" "jump_target b (r, c) (dr, dc) = Inr (Some t)"
  shows "apply_move b (f, t) = Inr (jumped b (r, c) (dr, dc))"
proof -
  note j = jump_facts[OF assms]
  show ?thesis
    unfolding apply_move_def jumped_def
    by (simp add: py_lookup_def j(7,8) Let_def mid_div set_cell_valid j(1,2,3))
qed

lemma jumped_facts:
  assumes "(f, (r, c)) \<in> set index_to_pos" "(dr, dc) \<in> set DIRECTIONS"
    "cell b r c = Inr 1" "jump_target b (r, c) (dr, dc) = Inr (Some t)"
  shows "peg_count (jumped b (r, c) (dr, dc)) = peg_count b - 1"
    "mask (jumped b (r, c) (dr, dc)) = mask b"
    "2 \<le> peg_count b"
proof -
  note j = jump_facts[OF assms]
  note d = direction_nonzero[OF assms(2)]
  let ?b1 = "upd b r c 0"
  let ?b2 = "upd ?b1 (r + dr) (c + dc) 0"
  have p1: "peek ?b1 (r + dr) (c + dc) = 1" using d j by (simp add: peek_upd)
  have p2: "peek ?b2 (r + 2 * dr) (c + 2 * dc) = 0" using d j by (simp add: peek_upd)
  have c1: "peg_count ?b1 = peg_count b - 1" using j by (simp add: peg_count_upd ind_def)
  have c2: "peg_count ?b2 = peg_count b - 2" using j p1 c1 by (simp add: peg_count_upd ind_def)
  show "peg_count (jumped b (r, c) (dr, dc)) = peg_count b - 1"
    unfolding jumped_def using j p2 c2 by (simp add: peg_count_upd ind_def)
  have "0 \<le> peg_count ?b2" unfolding peg_count_def by (rule sum_list_nonneg) auto
  with c2 show "2 \<le> peg_count b" by simp
  have m1: "mask ?b1 = mask b" using j by (simp add: mask_upd)
  have m2: "mask ?b2 = mask b" using j p1 m1 by (simp add: mask_upd)
  show "mask (jumped b (r, c) (dr, dc)) = mask b"
    unfolding jumped_def using j p2 m2 by (simp add: mask_upd)
qed

section \<open>The children of a board\<close>

lemma moves_list_cases:
  assumes "m \<in> set (moves_list b index_to_pos)"
  obtains f r c dr dc t where "m = (f, t)" "(f, (r, c)) \<in> set index_to_pos"
    "(dr, dc) \<in> set DIRECTIONS" "cell b r c = Inr 1" "jump_target b (r, c) (dr, dc) = Inr (Some t)"
proof -
  obtain f t where m: "m = (f, t)" by (cases m)
  with assms have "(f, t) \<in> set (moves_list b index_to_pos)" by simp
  then obtain r c d where h: "(f, (r, c)) \<in> set index_to_pos" "cell b r c = Inr 1"
      "d \<in> set DIRECTIONS" "jump_target b (r, c) d = Inr (Some t)"
    unfolding set_moves_list by blast
  obtain dr dc where d: "d = (dr, dc)" by (cases d)
  show ?thesis using that[OF m h(1) _ h(2)] h(3,4) d by simp
qed

lemma applied_legal:
  assumes "m \<in> set (moves_list b index_to_pos)"
  shows "apply_move b m = Inr (applied b m)" "peg_count (applied b m) = peg_count b - 1"
    "mask (applied b m) = mask b" "2 \<le> peg_count b"
proof -
  from assms obtain f r c dr dc t where h: "m = (f, t)" "(f, (r, c)) \<in> set index_to_pos"
    "(dr, dc) \<in> set DIRECTIONS" "cell b r c = Inr 1" "jump_target b (r, c) (dr, dc) = Inr (Some t)"
    by (rule moves_list_cases)
  have a: "apply_move b m = Inr (jumped b (r, c) (dr, dc))"
    unfolding h(1) by (rule apply_move_legal[OF h(2-5)])
  then have e: "applied b m = jumped b (r, c) (dr, dc)" by (simp add: applied_def)
  show "apply_move b m = Inr (applied b m)" using a e by simp
  show "peg_count (applied b m) = peg_count b - 1" "mask (applied b m) = mask b" "2 \<le> peg_count b"
    unfolding e by (rule jumped_facts[OF h(2-5)])+
qed

lemma wf_applied:
  assumes wf: "well_formed b" and m: "m \<in> set (moves_list b index_to_pos)"
  shows "well_formed (applied b m)"
proof -
  from m obtain f r c dr dc t where h: "m = (f, t)" "(f, (r, c)) \<in> set index_to_pos"
    "(dr, dc) \<in> set DIRECTIONS" "cell b r c = Inr 1" "jump_target b (r, c) (dr, dc) = Inr (Some t)"
    by (rule moves_list_cases)
  have a: "apply_move b m = Inr (jumped b (r, c) (dr, dc))"
    unfolding h(1) by (rule apply_move_legal[OF h(2-5)])
  then have e: "applied b m = jumped b (r, c) (dr, dc)" by (simp add: applied_def)
  note j = jump_facts[OF h(2-5)]
  let ?P = "\<lambda>v::int. v = - 1 \<or> v = 0 \<or> v = 1"
  have v0: "\<forall>row \<in> set b. \<forall>x \<in> set row. ?P x" using wf by (simp add: well_formed_def)
  have v1: "\<forall>row \<in> set (upd b r c 0). \<forall>x \<in> set row. ?P x"
    by (rule set_upd_values[OF j(1) v0]) simp
  have v2: "\<forall>row \<in> set (upd (upd b r c 0) (r + dr) (c + dc) 0). \<forall>x \<in> set row. ?P x"
    by (rule set_upd_values[OF _ v1]) (simp_all add: j)
  have v3: "\<forall>row \<in> set (jumped b (r, c) (dr, dc)). \<forall>x \<in> set row. ?P x"
    unfolding jumped_def fst_conv snd_conv by (rule set_upd_values[OF _ v2]) (simp_all add: j)
  have "mask (applied b m) = mask board"
    using applied_legal(3)[OF m] wf by (simp add: well_formed_def mask_def)
  then show ?thesis using v3 e by (simp add: well_formed_def mask_def)
qed

lemma child_boards_loop_eq:
  "\<forall>m \<in> set ms. apply_move b m = Inr (applied b m) \<Longrightarrow>
     child_boards_loop b ms acc = Inr (acc @ map (\<lambda>m. (applied b m, m)) ms)"
  by (induction ms arbitrary: acc) auto

lemma generate_child_boards_eq:
  assumes "legal_moves b = Inr ms"
  shows "generate_child_boards b = Inr (map (\<lambda>m. (applied b m, m)) ms)"
proof -
  have ms: "ms = moves_list b index_to_pos" using assms by (rule legal_moves_eq)
  have "\<forall>m \<in> set ms. apply_move b m = Inr (applied b m)"
    unfolding ms using applied_legal(1) by blast
  from child_boards_loop_eq[OF this, of "[]"] assms show ?thesis
    by (simp add: generate_child_boards_def)
qed

lemma generate_child_boards_Inr:
  assumes "generate_child_boards b = Inr children"
  shows "children = map (\<lambda>m. (applied b m, m)) (moves_list b index_to_pos)"
proof -
  from assms obtain ms where ms: "legal_moves b = Inr ms"
    by (cases "legal_moves b") (auto simp: generate_child_boards_def)
  from generate_child_boards_eq[OF ms] assms legal_moves_eq[OF ms] show ?thesis by simp
qed

lemma child_nodes_loop_eq:
  "\<forall>m \<in> set ms. apply_move (node_board n) m = Inr (applied (node_board n) m) \<Longrightarrow>
     child_nodes_loop n ms acc =
       Inr (acc @ map (\<lambda>m. Treenodes (applied (node_board n) m) (Some n) (Some m)) ms)"
  by (induction ms arbitrary: acc) auto

lemma generate_child_boards_dfs_eq:
  assumes "legal_moves (node_board n) = Inr ms"
  shows "generate_child_boards_dfs n =
    Inr (map (\<lambda>m. Treenodes (applied (node_board n) m) (Some n) (Some m)) ms)"
proof -
  have ms: "ms = moves_list (node_board n) index_to_pos" using assms by (rule legal_moves_eq)
  have "\<forall>m \<in> set ms. apply_move (node_board n) m = Inr (applied (node_board n) m)"
    unfolding ms using applied_legal(1) by blast
  from child_nodes_loop_eq[OF this, of "[]"] assms show ?thesis
    by (simp add: generate_child_boards_dfs_def)
qed

lemma generate_child_boards_dfs_Inr:
  assumes "generate_child_boards_dfs n = Inr children"
  shows "children = map (\<lambda>m. Treenodes (applied (node_board n) m) (Some n) (Some m))
                        (moves_list (node_board n) index_to_pos)"
proof -
  from assms obtain ms where ms: "legal_moves (node_board n) = Inr ms"
    by (cases "legal_moves (node_board n)") (auto simp: generate_child_boards_dfs_def)
  from generate_child_boards_dfs_eq[OF ms] assms legal_moves_eq[OF ms] show ?thesis by simp
qed

text \<open>The one-pass generator of test.py.\<close>

lemma successor_step_eq:
  assumes "(f, (r, c)) \<in> set index_to_pos" "(dr, dc) \<in> set DIRECTIONS" "cell b r c = Inr 1"
  shows "successor_step b f (r, c) (dr, dc) =
     (case jump_target b (r, c) (dr, dc) of
        Inl e \<Rightarrow> Inl e
      | Inr None \<Rightarrow> Inr None
      | Inr (Some t) \<Rightarrow> Inr (Some (f, t, applied b (f, t))))"
proof (cases "in_grid (r + 2 * dr) (c + 2 * dc)")
  case False
  then show ?thesis
    by (auto simp: successor_step_def jump_target_def Let_def in_grid_def ROWS_def COLS_def)
next
  case True
  then have bounds: "0 \<le> r + 2 * dr \<and> r + 2 * dr < ROWS \<and> 0 \<le> c + 2 * dc \<and> c + 2 * dc < COLS"
    by (simp add: in_grid_def ROWS_def COLS_def)
  have g: "in_grid r c" using assms(1) by (rule holes_in_grid)
  have nn: "0 \<le> r" "0 \<le> c" "0 \<le> r + dr" "0 \<le> c + dc" "0 \<le> r + 2 * dr" "0 \<le> c + 2 * dc"
    using g True unfolding in_grid_def by arith+
  have v1: "valid b r c" using cell_valid[OF nn(1,2) assms(3)] by simp
  show ?thesis
  proof (cases "cell b (r + dr) (c + dc)")
    case (Inl e)
    then show ?thesis using bounds by (simp add: successor_step_def jump_target_def Let_def)
  next
    case mid: (Inr m)
    show ?thesis
    proof (cases "m = 1")
      case False
      then show ?thesis using bounds mid
        by (simp add: successor_step_def jump_target_def Let_def)
    next
      case m1: True
      have v2: "valid b (r + dr) (c + dc)" using cell_valid[OF nn(3,4) mid] by simp
      show ?thesis
      proof (cases "cell b (r + 2 * dr) (c + 2 * dc)")
        case (Inl e)
        then show ?thesis using bounds mid m1
          by (simp add: successor_step_def jump_target_def Let_def)
      next
        case dest: (Inr tv)
        show ?thesis
        proof (cases "tv = 0")
          case False
          then show ?thesis using bounds mid m1 dest
            by (simp add: successor_step_def jump_target_def Let_def)
        next
          case t0: True
          have v3: "valid b (r + 2 * dr) (c + 2 * dc)" using cell_valid[OF nn(5,6) dest] by simp
          have writes: "ebind (set_cell b r c 0) (\<lambda>b1.
              ebind (set_cell b1 (r + dr) (c + dc) 0) (\<lambda>b2.
              ebind (set_cell b2 (r + 2 * dr) (c + 2 * dc) 1) k)) = k (jumped b (r, c) (dr, dc))" for k :: "grid \<Rightarrow> error + 'z"
            by (simp add: set_cell_valid v1 v2 v3 jumped_def)
          show ?thesis
          proof (cases "map_of pos_to_index (r + 2 * dr, c + 2 * dc)")
            case None
            then show ?thesis using bounds mid m1 dest t0
              by (simp add: successor_step_def jump_target_def Let_def writes py_lookup_def)
          next
            case (Some t)
            then have jt: "jump_target b (r, c) (dr, dc) = Inr (Some t)"
              using True mid m1 dest t0 by (simp add: jump_target_Some_iff)
            have a: "applied b (f, t) = jumped b (r, c) (dr, dc)"
              using apply_move_legal[OF assms jt] by (simp add: applied_def)
            show ?thesis
              using bounds mid m1 dest t0 Some
              by (simp add: jt a successor_step_def Let_def writes py_lookup_def)
          qed
        qed
      qed
    qed
  qed
qed

lemma successors_from_eq:
  assumes "(f, (r, c)) \<in> set index_to_pos" "cell b r c = Inr 1" "set ds \<subseteq> set DIRECTIONS"
    "successors_from b f (r, c) ds acc = Inr res"
  shows "res = acc @ map (succ_of b) (map (Pair f) (targets b (r, c) ds))"
  using assms(3,4)
proof (induction ds arbitrary: acc)
  case Nil
  then show ?case by (simp add: targets_simps)
next
  case (Cons d ds)
  obtain dr dc where d: "d = (dr, dc)" by (cases d)
  have dd: "(dr, dc) \<in> set DIRECTIONS" using Cons.prems(1) d by simp
  have sub: "set ds \<subseteq> set DIRECTIONS" using Cons.prems(1) by simp
  note st = successor_step_eq[OF assms(1) dd assms(2)]
  show ?case
  proof (cases "jump_target b (r, c) (dr, dc)")
    case (Inl e)
    with st Cons.prems(2) d show ?thesis by simp
  next
    case (Inr x)
    show ?thesis
    proof (cases x)
      case None
      with Inr st Cons.prems(2) d have "successors_from b f (r, c) ds acc = Inr res" by simp
      from Cons.IH[OF sub this] Inr None d show ?thesis by (simp add: targets_simps)
    next
      case (Some t)
      with Inr st Cons.prems(2) d
      have "successors_from b f (r, c) ds (acc @ [(f, t, applied b (f, t))]) = Inr res" by simp
      from Cons.IH[OF sub this] Inr Some d show ?thesis by (simp add: targets_simps succ_of_def)
    qed
  qed
qed

lemma scan_successors_eq:
  assumes "set hs \<subseteq> set index_to_pos" "scan_successors b hs acc = Inr res"
  shows "res = acc @ map (succ_of b) (moves_list b hs)"
  using assms
proof (induction hs arbitrary: acc)
  case Nil
  then show ?case by (simp add: moves_list_def)
next
  case (Cons h hs)
  obtain f r c where h: "h = (f, (r, c))" by (cases h) auto
  have mem: "(f, (r, c)) \<in> set index_to_pos" and sub: "set hs \<subseteq> set index_to_pos"
    using Cons.prems(1) h by auto
  show ?case
  proof (cases "cell b r c = Inr 1")
    case True
    with Cons.prems(2) h obtain acc' where
      a: "successors_from b f (r, c) DIRECTIONS acc = Inr acc'"
      and s: "scan_successors b hs acc' = Inr res"
      by (auto split: sum.splits)
    from Cons.IH[OF sub s] successors_from_eq[OF mem True subset_refl a] True h show ?thesis
      by (simp add: moves_list_def)
  next
    case False
    with Cons.prems(2) h have "scan_successors b hs acc = Inr res"
      by (auto split: sum.splits if_splits)
    from Cons.IH[OF sub this] False h show ?thesis by (simp add: moves_list_def)
  qed
qed

lemma generate_successor_states_Inr:
  "generate_successor_states b = Inr res \<Longrightarrow> res = map (succ_of b) (moves_list b index_to_pos)"
  unfolding generate_successor_states_def by (drule scan_successors_eq[OF subset_refl]) simp

lemma wf_successors_from:
  assumes "well_formed b" "(f, (r, c)) \<in> set index_to_pos" "cell b r c = Inr 1"
  shows "set ds \<subseteq> set DIRECTIONS \<Longrightarrow> \<exists>res. successors_from b f (r, c) ds acc = Inr res"
proof (induction ds arbitrary: acc)
  case Nil
  then show ?case by simp
next
  case (Cons d ds)
  obtain dr dc where d: "d = (dr, dc)" by (cases d)
  have dd: "(dr, dc) \<in> set DIRECTIONS" using Cons.prems d by simp
  have sub: "set ds \<subseteq> set DIRECTIONS" using Cons.prems by simp
  from wf_jump_target[OF assms(1) holes_in_grid[OF assms(2)], of dr dc] obtain x where
    x: "jump_target b (r, c) (dr, dc) = Inr x" by blast
  show ?case
    using successor_step_eq[OF assms(2) dd assms(3)] x Cons.IH[OF sub] d
    by (cases x) auto
qed

lemma wf_scan_successors:
  assumes "well_formed b"
  shows "set hs \<subseteq> set index_to_pos \<Longrightarrow> \<exists>res. scan_successors b hs acc = Inr res"
proof (induction hs arbitrary: acc)
  case Nil
  then show ?case by simp
next
  case (Cons h hs)
  obtain f r c where h: "h = (f, (r, c))" by (cases h) auto
  have mem: "(f, (r, c)) \<in> set index_to_pos" and sub: "set hs \<subseteq> set index_to_pos"
    using Cons.prems h by auto
  have g: "in_grid r c" using mem by (rule holes_in_grid)
  have s: "shape7 b" using assms by (rule wf_shape7)
  have rest: "\<exists>res. scan_successors b hs acc' = Inr res" for acc'
    using Cons.IH[OF sub] by auto
  show ?case
  proof (cases "peek b r c = 1")
    case True
    then have c1: "cell b r c = Inr 1" using shape7_cell[OF s g] by simp
    from wf_successors_from[OF assms mem c1 subset_refl] obtain acc' where
      "successors_from b f (r, c) DIRECTIONS acc = Inr acc'" by blast
    then show ?thesis using rest h c1 by auto
  next
    case False
    then show ?thesis using rest h by (auto simp: shape7_cell[OF s g])
  qed
qed

lemma wf_generate_successor_states:
  "well_formed b \<Longrightarrow>
     generate_successor_states b = Inr (map (succ_of b) (moves_list b index_to_pos))"
  using wf_scan_successors[OF _ subset_refl, of b "[]"] generate_successor_states_Inr
  unfolding generate_successor_states_def by fastforce

lemma wf_generate_child_boards:
  "well_formed b \<Longrightarrow>
     generate_child_boards b = Inr (map (\<lambda>m. (applied b m, m)) (moves_list b index_to_pos))"
  using generate_child_boards_eq[OF wf_legal_moves] by simp

lemma length_targets: "length (targets b pos ds) \<le> length ds"
  by (induction ds) (auto simp: targets_simps split: sum.splits option.splits)

lemma length_moves_list: "length (moves_list b hs) \<le> 4 * length hs"
proof (induction hs)
  case Nil
  then show ?case by (simp add: moves_list_def)
next
  case (Cons h hs)
  have "length (targets b (snd h) DIRECTIONS) \<le> 4"
    using length_targets[of b "snd h" DIRECTIONS] by (simp add: DIRECTIONS_def)
  then show ?case using Cons by (auto simp: moves_list_def case_prod_beta)
qed

lemma length_moves_list_holes: "length (moves_list b index_to_pos) \<le> 132"
  using length_moves_list[of b index_to_pos] by (simp add: index_to_pos_eq)

lemma mask_same_size: "mask b' = mask b \<Longrightarrow> length (concat b') = length (concat b)"
proof -
  assume "mask b' = mask b"
  then have "map length (mask b') = map length (mask b)" by simp
  then have "map length b' = map length b" by (simp add: mask_def comp_def)
  then show ?thesis by (simp add: length_concat)
qed

lemma generate_child_boards_board:
  "generate_child_boards board =
   Inr [([[- 1, - 1, 1, 1, 1, - 1, - 1], [- 1, - 1, 1, 0, 1, - 1, - 1],
        [1, 1, 1, 0, 1, 1, 1], [1, 1, 1, 1, 1, 1, 1], [1, 1, 1, 1, 1, 1, 1],
        [- 1, - 1, 1, 1, 1, - 1, - 1], [- 1, - 1, 1, 1, 1, - 1, - 1]],
       5, 17),
      ([[- 1, - 1, 1, 1, 1, - 1, - 1], [- 1, - 1, 1, 1, 1, - 1, - 1],
        [1, 1, 1, 1, 1, 1, 1], [1, 0, 0, 1, 1, 1, 1], [1, 1, 1, 1, 1, 1, 1],
        [- 1, - 1, 1, 1, 1, - 1, - 1], [- 1, - 1, 1, 1, 1, - 1, - 1]],
       15, 17),
      ([[- 1, - 1, 1, 1, 1, - 1, - 1], [- 1, - 1, 1, 1, 1, - 1, - 1],
        [1, 1, 1, 1, 1, 1, 1], [1, 1, 1, 1, 0, 0, 1], [1, 1, 1, 1, 1, 1, 1],
        [- 1, - 1, 1, 1, 1, - 1, - 1], [- 1, - 1, 1, 1, 1, - 1, - 1]],
       19, 17),
      ([[- 1, - 1, 1, 1, 1, - 1, - 1], [- 1, - 1, 1, 1, 1, - 1, - 1],
        [1, 1, 1, 1, 1, 1, 1], [1, 1, 1, 1, 1, 1, 1], [1, 1, 1, 0, 1, 1, 1],
        [- 1, - 1, 1, 0, 1, - 1, - 1], [- 1, - 1, 1, 1, 1, - 1, - 1]],
       29, 17)]"
  by code_simp

lemma peg_count_board: "peg_count board = 32"
  by (simp add: peg_count_def board_eq)

section \<open>Termination of the searches\<close>

lemma sum_list_bounded:
  fixes f :: "'a \<Rightarrow> nat"
  shows "\<forall>x \<in> set xs. f x \<le> k \<Longrightarrow> sum_list (map f xs) \<le> length xs * k"
  by (induction xs) auto

lemma children_weight:
  "sum_list (map (\<lambda>m. weight (applied b m)) (moves_list b index_to_pos)) < weight b"
proof (cases "moves_list b index_to_pos = []")
  case True
  then show ?thesis by (simp add: weight_def)
next
  case False
  then have "hd (moves_list b index_to_pos) \<in> set (moves_list b index_to_pos)" by simp
  then obtain m0 where m0: "m0 \<in> set (moves_list b index_to_pos)" ..
  have p: "2 \<le> peg_count b" using applied_legal(4)[OF m0] .
  define k where "k = nat (peg_count b) - 1"
  have pk: "nat (peg_count b) = Suc k" using p by (simp add: k_def)
  have each: "weight (applied b m) \<le> 133 ^ k" if "m \<in> set (moves_list b index_to_pos)" for m
    using applied_legal(2)[OF that] p by (simp add: weight_def k_def nat_diff_distrib)
  have "sum_list (map (\<lambda>m. weight (applied b m)) (moves_list b index_to_pos))
          \<le> length (moves_list b index_to_pos) * 133 ^ k"
    by (rule sum_list_bounded) (use each in blast)
  also have "\<dots> \<le> 132 * 133 ^ k" using length_moves_list_holes[of b] by simp
  also have "\<dots> < 133 ^ Suc k" by simp
  finally show ?thesis by (simp add: weight_def pk)
qed

lemma enqueue_successors_weight:
  "sum_list (map (weight \<circ> fst) (fst (enqueue_successors succs seq q v)))
     \<le> sum_list (map (weight \<circ> fst) q) + sum_list (map (\<lambda>s. weight (snd (snd s))) succs)"
proof (induction succs arbitrary: q v)
  case Nil
  then show ?case by simp
next
  case (Cons s succs)
  obtain f t nb where s: "s = (f, t, nb)" by (cases s) auto
  show ?case
  proof (cases "serialize nb \<notin> v")
    case True
    then show ?thesis
      using Cons.IH[of "q @ [(nb, seq @ [(f, t)])]" "insert (serialize nb) v"] s by simp
  next
    case False
    then show ?thesis using Cons.IH[of q v] s by simp
  qed
qed

termination BFS_test_loop
proof (relation "measure (\<lambda>(q, v, shown). sum_list (map (weight \<circ> fst) q))", goal_cases)
  case 1
  then show ?case by simp
next
  case (2 frontier_queue visited_boards shown current rest goal successors)
  have s: "successors = map (succ_of (fst current)) (moves_list (fst current) index_to_pos)"
    using 2(4) by (rule generate_successor_states_Inr)
  have "sum_list (map (\<lambda>s. weight (snd (snd s))) successors) < weight (fst current)"
    unfolding s using children_weight[of "fst current"] by (simp add: comp_def succ_of_def)
  with enqueue_successors_weight[of successors "snd current" rest visited_boards] 2(1)
  show ?case by simp
qed

lemma add_to_frontier_weight:
  "sum_list (map weight (add_to_frontier s frontier explored))
     \<le> sum_list (map weight frontier) + weight s"
  by (simp add: add_to_frontier_def)

lemma add_children_weight:
  "sum_list (map weight (add_children cs frontier explored))
     \<le> sum_list (map weight frontier) + sum_list (map weight cs)"
proof (induction cs arbitrary: frontier)
  case Nil
  then show ?case by simp
next
  case (Cons c cs)
  show ?case
  proof (cases "serialize c \<notin> set explored")
    case True
    have "sum_list (map weight (add_children (c # cs) frontier explored))
        \<le> sum_list (map weight (add_to_frontier c frontier explored)) + sum_list (map weight cs)"
      using True Cons.IH[of "add_to_frontier c frontier explored"] by simp
    also have "\<dots> \<le> sum_list (map weight frontier) + weight c + sum_list (map weight cs)"
      using add_to_frontier_weight[of c frontier explored] by simp
    finally show ?thesis by simp
  next
    case False
    then show ?thesis using Cons.IH[of frontier] by simp
  qed
qed

termination BFS_bfs_loop
proof (relation "measure (\<lambda>(frontier, explored, shown). sum_list (map weight frontier))", goal_cases)
  case 1
  then show ?case by simp
next
  case (2 frontier explored shown node rest status lines children)
  have c: "children = map (\<lambda>m. (applied node m, m)) (moves_list node index_to_pos)"
    using 2(5) by (rule generate_child_boards_Inr)
  have "sum_list (map weight (map fst children)) < weight node"
    unfolding c using children_weight[of node] by (simp add: comp_def)
  with add_children_weight[of "map fst children" rest "explored @ [serialize node]"] 2(1)
  show ?case by simp
qed

section \<open>The heuristic order\<close>

lemma emap_Inr: "emap f xs = Inr ys \<Longrightarrow> list_all2 (\<lambda>x y. f x = Inr y) xs ys"
proof (induction xs arbitrary: ys)
  case Nil
  then show ?case by simp
next
  case (Cons x xs)
  from Cons.prems obtain y ys' where y: "f x = Inr y" and r: "emap f xs = Inr ys'" and e: "ys = y # ys'"
    by (auto split: sum.splits)
  from Cons.IH[OF r] y e show ?case by simp
qed

lemma heuristic_key_Inr: "heuristic_key x = Inr k \<Longrightarrow> k = key_of x"
  by (cases "legal_moves (node_board x)")
     (auto simp: heuristic_key_def key_of_def mobility_def)

lemma insort_key_pair:
  "insort_key fst (k x, x) (map (\<lambda>x. (k x, x)) ys) = map (\<lambda>x. (k x, x)) (insort_key k x ys)"
  by (induction ys) auto

lemma sort_key_pair: "sort_key fst (map (\<lambda>x. (k x, x)) xs) = map (\<lambda>x. (k x, x)) (sort_key k xs)"
  by (induction xs) (auto simp: insort_key_pair)

lemma heuristic_order_Inr:
  assumes "heuristic_order children = Inr ordered"
  shows "ordered = rev (sort_key key_of children)"
proof -
  from assms obtain keyed where
    k: "emap (\<lambda>x. ebind (heuristic_key x) (\<lambda>k. Inr (k, x))) children = Inr keyed"
    and o: "ordered = rev (map snd (sort_key fst keyed))"
    by (cases "emap (\<lambda>x. ebind (heuristic_key x) (\<lambda>k. Inr (k, x))) children")
       (auto simp: heuristic_order_def)
  from k have "list_all2 (\<lambda>x y. ebind (heuristic_key x) (\<lambda>k. Inr (k, x)) = Inr y) children keyed"
    by (rule emap_Inr)
  then have "list_all2 (\<lambda>x y. y = (key_of x, x)) children keyed"
    by (rule list_all2_mono) (auto simp: ebind_def split: sum.splits dest: heuristic_key_Inr)
  then have "keyed = map (\<lambda>x. (key_of x, x)) children"
    by (induction rule: list_all2_induct) auto
  then show ?thesis using o by (simp add: sort_key_pair comp_def)
qed

lemma heuristic_order_mset: "heuristic_order children = Inr ordered \<Longrightarrow> mset ordered = mset children"
  by (drule heuristic_order_Inr) simp

lemma add_children_dfs_weight:
  "sum_list (map (\<lambda>n. weight (node_board n)) (add_children_dfs cs frontier chechked explored))
     \<le> sum_list (map (\<lambda>n. weight (node_board n)) frontier) + sum_list (map (\<lambda>n. weight (node_board n)) cs)"
proof (induction cs arbitrary: frontier)
  case Nil
  then show ?case by simp
next
  case (Cons c cs)
  show ?case
  proof (cases "serialize (node_board c) \<notin> set explored")
    case True
    have "sum_list (map (\<lambda>n. weight (node_board n)) (add_children_dfs (c # cs) frontier chechked explored))
        \<le> sum_list (map (\<lambda>n. weight (node_board n)) (add_to_frontier_dfs c frontier chechked))
            + sum_list (map (\<lambda>n. weight (node_board n)) cs)"
      using True Cons.IH[of "add_to_frontier_dfs c frontier chechked"] by simp
    also have "\<dots> \<le> sum_list (map (\<lambda>n. weight (node_board n)) frontier) + weight (node_board c)
                    + sum_list (map (\<lambda>n. weight (node_board n)) cs)"
      by (simp add: add_to_frontier_dfs_def)
    finally show ?thesis by simp
  next
    case False
    then show ?thesis using Cons.IH[of frontier] by simp
  qed
qed

lemma sum_list_mset_cong:
  fixes f :: "'a \<Rightarrow> nat"
  assumes "mset xs = mset ys"
  shows "sum_list (map f xs) = sum_list (map f ys)"
proof -
  have "mset (map f xs) = mset (map f ys)"
    using assms by (metis mset_map)
  then have "sum_mset (mset (map f xs)) = sum_mset (mset (map f ys))" by (rule arg_cong)
  then show ?thesis by (simp only: sum_mset_sum_list)
qed

lemma sum_list_butlast:
  fixes g :: "'a \<Rightarrow> nat"
  shows "xs \<noteq> [] \<Longrightarrow> sum_list (map g xs) = sum_list (map g (butlast xs)) + g (last xs)"
  by (induction xs) auto

termination DFS_loop
proof (relation "measure (\<lambda>(frontier, chechked, explored, shown).
                    sum_list (map (\<lambda>n. weight (node_board n)) frontier))", goal_cases)
  case 1
  then show ?case by simp
next
  case (2 frontier chechked_boards explored shown status lines children ordered)
  let ?n = "last frontier"
  have c: "children = map (\<lambda>m. Treenodes (applied (node_board ?n) m) (Some ?n) (Some m))
                        (moves_list (node_board ?n) index_to_pos)"
    using 2(5) by (rule generate_child_boards_dfs_Inr)
  have "sum_list (map (\<lambda>n. weight (node_board n)) children) < weight (node_board ?n)"
    unfolding c using children_weight[of "node_board ?n"] by (simp add: comp_def)
  then have o: "sum_list (map (\<lambda>n. weight (node_board n)) ordered) < weight (node_board ?n)"
    using sum_list_mset_cong[OF heuristic_order_mset[OF 2(6)], of "\<lambda>n. weight (node_board n)"] by simp
  have f: "sum_list (map (\<lambda>n. weight (node_board n)) frontier)
      = sum_list (map (\<lambda>n. weight (node_board n)) (butlast frontier)) + weight (node_board ?n)"
    using 2(1) by (rule sum_list_butlast)
  show ?case
    using add_children_dfs_weight[of ordered "butlast frontier"
        "chechked_boards @ [serialize (node_board ?n)]" "explored @ [PyNode ?n]"] o f
    by simp
qed

text \<open>The loop equations are unfolded by hand, one iteration at a time.\<close>

declare BFS_test_loop.simps [simp del]
declare BFS_bfs_loop.simps [simp del]
declare DFS_loop.simps [simp del]

section \<open>The order of the enumeration\<close>

lemma direction_index_DIRECTIONS:
  "sorted_wrt (\<lambda>d d'. direction_index d < direction_index d') DIRECTIONS"
  by (simp add: direction_index_def DIRECTIONS_def)

lemma direction_rank_jump:
  assumes "(f, (r, c)) \<in> set index_to_pos" "jump_target b (r, c) (dr, dc) = Inr (Some t)"
  shows "direction_rank (f, t) = direction_index (dr, dc)"
proof -
  have 1: "map_of index_to_pos f = Some (r, c)" using assms(1) by (simp add: map_of_index_to_pos)
  have 2: "map_of index_to_pos t = Some (r + 2 * dr, c + 2 * dc)"
    using assms(2) by (simp add: jump_target_Some_iff pos_index_inverse)
  show ?thesis by (simp add: direction_rank_def 1 2)
qed

lemma sorted_targets:
  assumes "(f, (r, c)) \<in> set index_to_pos"
  shows "sorted_wrt (\<lambda>d d'. direction_index d < direction_index d') ds \<Longrightarrow>
         sorted_wrt (\<lambda>t t'. direction_rank (f, t) < direction_rank (f, t')) (targets b (r, c) ds)"
proof (induction ds)
  case Nil
  then show ?case by (simp add: targets_simps)
next
  case (Cons d ds)
  obtain dr dc where d: "d = (dr, dc)" by (cases d)
  have rest: "sorted_wrt (\<lambda>t t'. direction_rank (f, t) < direction_rank (f, t')) (targets b (r, c) ds)"
    using Cons by simp
  show ?case
  proof (cases "jump_target b (r, c) d")
    case (Inl e)
    then show ?thesis using rest by (simp add: targets_simps)
  next
    case (Inr x)
    show ?thesis
    proof (cases x)
      case None
      then show ?thesis using rest Inr by (simp add: targets_simps)
    next
      case (Some t)
      have "direction_rank (f, t) < direction_rank (f, t')" if "t' \<in> set (targets b (r, c) ds)" for t'
      proof -
        from that obtain d' where d': "d' \<in> set ds" "jump_target b (r, c) d' = Inr (Some t')"
          by (auto simp: set_targets)
        obtain dr' dc' where e: "d' = (dr', dc')" by (cases d')
        have "direction_index d < direction_index d'" using Cons.prems d'(1) by simp
        then show ?thesis
          using direction_rank_jump[OF assms, of b dr dc t] direction_rank_jump[OF assms, of b dr' dc' t']
                Inr Some d d' e by simp
      qed
      then show ?thesis using rest Inr Some by (simp add: targets_simps)
    qed
  qed
qed

lemma fst_moves_list: "m \<in> set (moves_list b hs) \<Longrightarrow> fst m \<in> fst ` set hs"
  by (cases m) (force simp: set_moves_list image_iff)

lemma sorted_moves_list:
  assumes "set hs \<subseteq> set index_to_pos" "sorted_wrt (<) (map fst hs)"
  shows "ascending_from_direction (moves_list b hs)"
  using assms
proof (induction hs)
  case Nil
  then show ?case by (simp add: moves_list_def ascending_from_direction_def)
next
  case (Cons h hs)
  obtain f r c where h: "h = (f, (r, c))" by (cases h) auto
  have mem: "(f, (r, c)) \<in> set index_to_pos" and sub: "set hs \<subseteq> set index_to_pos"
    using Cons.prems(1) h by auto
  have later: "\<forall>m \<in> set (moves_list b hs). f < fst m"
    using Cons.prems(2) h fst_moves_list[of _ b hs] by fastforce
  have ih: "ascending_from_direction (moves_list b hs)"
    using Cons.IH[OF sub] Cons.prems(2) by simp
  have step: "moves_list b (h # hs) =
      (if cell b r c = Inr 1 then map (Pair f) (targets b (r, c) DIRECTIONS) else []) @ moves_list b hs"
    by (simp add: moves_list_def h)
  have block: "sorted_wrt (\<lambda>m m'. fst m < fst m' \<or> (fst m = fst m' \<and> direction_rank m < direction_rank m'))
      (map (Pair f) (targets b (r, c) DIRECTIONS))"
    using sorted_targets[OF mem direction_index_DIRECTIONS, of b]
    by (simp add: sorted_wrt_map)
  show ?case
    unfolding step ascending_from_direction_def
    using ih block later
    by (auto simp: sorted_wrt_append ascending_from_direction_def)
qed

lemma sorted_index_to_pos: "sorted_wrt (<) (map fst index_to_pos)"
  by (simp add: index_to_pos_eq)

lemma well_formed_board_after_three: "well_formed board_after_three"
  by (simp add: well_formed_def) (simp add: board_eq board_after_three_def)

lemma replay_board_after_three:
  "replay board [(15, 17), (28, 16), (30, 28)] = Inr board_after_three"
  by (simp add: board_eq board_after_three_def apply_move_def index_to_pos_eq py_lookup_def
                set_cell_def py_get_def py_set_def py_index_def Let_def)

lemma legal_moves_board_after_three:
  "legal_moves board_after_three =
     Inr [(9, 23), (17, 29), (17, 15), (18, 30), (21, 23), (25, 23), (31, 23)]"
  unfolding board_after_three_def by code_simp

section \<open>The searches do not raise on well-formed boards\<close>

lemma emap_total: "\<forall>x \<in> set xs. \<exists>y. f x = Inr y \<Longrightarrow> \<exists>ys. emap f xs = Inr ys"
proof (induction xs)
  case Nil
  then show ?case by simp
next
  case (Cons x xs)
  then obtain y ys where "f x = Inr y" "emap f xs = Inr ys" by auto
  then show ?case by simp
qed

lemma wf_render: assumes "well_formed b" shows "\<exists>s. render b = Inr s"
proof -
  have s: "shape7 b" using assms by (rule wf_shape7)
  define cellf :: "int \<Rightarrow> int \<Rightarrow> error + string" where
    "cellf r c = ebind (cell b r c) (\<lambda>val.
        Inr (if val = - 1 then ''  '' else if val = 1 then ''x '' else ''o ''))" for r c
  define rowf :: "int \<Rightarrow> error + string" where
    "rowf r = ebind (emap (cellf r) (map int [0..<nat COLS])) (\<lambda>out. Inr (concat out))" for r
  have cellok: "\<exists>y. cellf r c = Inr y"
    if "r \<in> set (map int [0..<nat ROWS])" "c \<in> set (map int [0..<nat COLS])" for r c
  proof -
    from that have "in_grid r c" by (auto simp: in_grid_def ROWS_def COLS_def)
    then show ?thesis using shape7_cell[OF s] by (simp add: cellf_def)
  qed
  have rowok: "\<exists>y. rowf r = Inr y" if "r \<in> set (map int [0..<nat ROWS])" for r
  proof -
    have "\<forall>c \<in> set (map int [0..<nat COLS]). \<exists>y. cellf r c = Inr y"
      using cellok[OF that] by blast
    from emap_total[OF this] show ?thesis by (auto simp: rowf_def)
  qed
  then have "\<forall>r \<in> set (map int [0..<nat ROWS]). \<exists>y. rowf r = Inr y" by blast
  from emap_total[OF this] obtain lines where "emap rowf (map int [0..<nat ROWS]) = Inr lines"
    by blast
  then show ?thesis unfolding render_def rowf_def cellf_def by simp
qed

lemma wf_print_status: "well_formed b \<Longrightarrow> \<exists>s. print_status b = Inr s"
  using wf_render[of b] by (auto simp: print_status_def wf_legal_moves)

lemma wf_list_moves: "well_formed b \<Longrightarrow> \<exists>l. list_moves b = Inr l"
  by (simp add: list_moves_def wf_legal_moves)

lemma wf_goal_at_center: "well_formed b \<Longrightarrow> \<exists>g. goal_at_center b = Inr g"
proof -
  assume "well_formed b"
  then have "shape7 b" by (rule wf_shape7)
  then have "cell b 3 3 = Inr (peek b 3 3)" by (rule shape7_cell) (simp add: in_grid_def)
  then show ?thesis by (auto simp: goal_at_center_def)
qed

lemma wf_mobility: "well_formed b \<Longrightarrow> mobility (Treenodes b p m) = length (moves_list b index_to_pos)"
  by (simp add: mobility_def wf_legal_moves)

lemma wf_heuristic_order:
  assumes "\<forall>x \<in> set children. well_formed (node_board x)"
  shows "heuristic_order children = Inr (rev (sort_key key_of children))"
proof -
  have "\<forall>x \<in> set children. \<exists>y. ebind (heuristic_key x) (\<lambda>k. Inr (k, x)) = Inr y"
    using assms by (auto simp: heuristic_key_def wf_legal_moves)
  from emap_total[OF this] obtain keyed where
    "emap (\<lambda>x. ebind (heuristic_key x) (\<lambda>k. Inr (k, x))) children = Inr keyed" by blast
  then obtain ordered where o: "heuristic_order children = Inr ordered"
    by (simp add: heuristic_order_def)
  from heuristic_order_Inr[OF o] o show ?thesis by simp
qed

lemma wf_children:
  assumes "well_formed b"
  shows "\<forall>m \<in> set (moves_list b index_to_pos). well_formed (applied b m)"
  using assms wf_applied by blast

lemma wf_generate_child_boards_dfs:
  assumes "well_formed (node_board n)"
  shows "generate_child_boards_dfs n =
    Inr (map (\<lambda>m. Treenodes (applied (node_board n) m) (Some n) (Some m))
             (moves_list (node_board n) index_to_pos))"
  using generate_child_boards_dfs_eq[OF wf_legal_moves[OF assms]] .

text \<open>Playing with \<open>make_move\<close>.\<close>

lemma wf_make_move:
  assumes "well_formed b"
  shows "make_move b f t =
     (if (f, t) \<in> set (moves_list b index_to_pos) then Inr (True, applied b (f, t)) else Inr (False, b))"
  using assms applied_legal(1)[of "(f, t)" b]
  by (simp add: make_move_def is_valid_move_wf moves_list_iff_spec)

lemma play_append:
  "play b (ms @ [m]) =
     ebind (play b ms) (\<lambda>r. case r of None \<Rightarrow> Inr None | Some b' \<Rightarrow> play b' [m])"
proof (induction ms arbitrary: b)
  case Nil
  then show ?case by (cases "make_move b (fst m) (snd m)") (auto simp: ebind_def)
next
  case (Cons a ms)
  show ?case
  proof (cases "make_move b (fst a) (snd a)")
    case (Inl e)
    then show ?thesis by simp
  next
    case (Inr res)
    then show ?thesis using Cons.IH[of "snd res"] by simp
  qed
qed

lemma replay_append: "replay b (ms @ [m]) = ebind (replay b ms) (\<lambda>b'. apply_move b' m)"
proof (induction ms arbitrary: b)
  case Nil
  then show ?case by (cases "apply_move b m") auto
next
  case (Cons a ms)
  then show ?case by (cases "apply_move b a") auto
qed

lemma wf_play_step:
  assumes "well_formed b" "m \<in> set (moves_list b index_to_pos)"
  shows "play b [m] = Inr (Some (applied b m))"
  using wf_make_move[OF assms(1), of "fst m" "snd m"] assms(2) by simp

lemma wf_play:
  "well_formed b \<Longrightarrow> play b ms = Inr (Some g) \<Longrightarrow>
     well_formed g \<and> peg_count g = peg_count b - int (length ms)"
proof (induction ms arbitrary: b)
  case Nil
  then show ?case by simp
next
  case (Cons m ms)
  have mem: "m \<in> set (moves_list b index_to_pos)"
    using Cons.prems wf_make_move[OF Cons.prems(1), of "fst m" "snd m"]
    by (auto split: if_splits)
  then have p: "play (applied b m) ms = Inr (Some g)"
    using Cons.prems wf_make_move[OF Cons.prems(1), of "fst m" "snd m"] by simp
  from Cons.IH[OF wf_applied[OF Cons.prems(1) mem] p] applied_legal(2)[OF mem]
  show ?case by simp
qed

section \<open>Breadth-first search of test.py\<close>

lemma enqueue_successors_set:
  "set (fst (enqueue_successors succs seq q v))
     \<subseteq> set q \<union> (\<lambda>s. (snd (snd s), seq @ [(fst s, fst (snd s))])) ` set succs"
proof (induction succs arbitrary: q v)
  case Nil
  then show ?case by simp
next
  case (Cons s succs)
  obtain f t nb where s: "s = (f, t, nb)" by (cases s) auto
  show ?case
  proof (cases "serialize nb \<notin> v")
    case True
    then show ?thesis
      using Cons.IH[of "q @ [(nb, seq @ [(f, t)])]" "insert (serialize nb) v"] s by auto
  next
    case False
    then show ?thesis using Cons.IH[of q v] s by auto
  qed
qed

lemma enqueue_successors_keys:
  "keys_ok shown (map fst q) v \<Longrightarrow>
     keys_ok shown (map fst (fst (enqueue_successors succs seq q v)))
                   (snd (enqueue_successors succs seq q v))"
proof (induction succs arbitrary: q v)
  case Nil
  then show ?case by simp
next
  case (Cons s succs)
  obtain f t nb where s: "s = (f, t, nb)" by (cases s) auto
  show ?case
  proof (cases "serialize nb \<notin> v")
    case True
    have e: "map serialize (shown @ map fst (q @ [(nb, seq @ [(f, t)])]))
               = map serialize (shown @ map fst q) @ [serialize nb]" by simp
    have d: "distinct (map serialize (shown @ map fst q))"
      and sub: "set (map serialize (shown @ map fst q)) \<subseteq> v"
      using Cons.prems unfolding keys_ok_def by (simp_all only: set_map)
    have n: "serialize nb \<notin> set (map serialize (shown @ map fst q))" using sub True by blast
    have "distinct (map serialize (shown @ map fst (q @ [(nb, seq @ [(f, t)])])))"
      unfolding e using d n by simp
    moreover have "serialize ` set (shown @ map fst (q @ [(nb, seq @ [(f, t)])]))
                     \<subseteq> insert (serialize nb) v"
      using sub by auto
    ultimately have "keys_ok shown (map fst (q @ [(nb, seq @ [(f, t)])])) (insert (serialize nb) v)"
      unfolding keys_ok_def by simp
    from Cons.IH[OF this] True s show ?thesis by simp
  next
    case False
    then show ?thesis using Cons.IH[OF Cons.prems] s by simp
  qed
qed

lemma entry_ok_successor:
  assumes "entry_ok b0 (b, seq)" "m \<in> set (moves_list b index_to_pos)"
  shows "entry_ok b0 (applied b m, seq @ [m])"
proof -
  from assms(1) have wf: "well_formed b" and p: "play b0 seq = Inr (Some b)"
    and r: "replay b0 seq = Inr b" by (simp_all add: entry_ok_def)
  have "play b0 (seq @ [m]) = Inr (Some (applied b m))"
    unfolding play_append p using wf_play_step[OF wf assms(2)] by simp
  moreover have "replay b0 (seq @ [m]) = Inr (applied b m)"
    unfolding replay_append r using applied_legal(1)[OF assms(2)] by simp
  ultimately show ?thesis using wf_applied[OF wf assms(2)] by (simp add: entry_ok_def)
qed

lemma entries_after_step:
  assumes "\<forall>x \<in> set (current # rest). entry_ok b0 x"
  shows "\<forall>x \<in> set (fst (enqueue_successors
            (map (succ_of (fst current)) (moves_list (fst current) index_to_pos))
            (snd current) rest v)). entry_ok b0 x"
proof
  fix x
  assume "x \<in> set (fst (enqueue_successors
            (map (succ_of (fst current)) (moves_list (fst current) index_to_pos))
            (snd current) rest v))"
  with enqueue_successors_set[of "map (succ_of (fst current)) (moves_list (fst current) index_to_pos)"
      "snd current" rest v]
  consider "x \<in> set rest"
    | m where "m \<in> set (moves_list (fst current) index_to_pos)"
        "x = (applied (fst current) m, snd current @ [m])"
    by (auto simp: succ_of_def)
  then show "entry_ok b0 x"
  proof cases
    case 1
    then show ?thesis using assms by simp
  next
    case 2
    have "entry_ok b0 (fst current, snd current)" using assms by simp
    from entry_ok_successor[OF this 2(1)] 2(2) show ?thesis by simp
  qed
qed

lemma BFS_test_loop_total:
  "\<forall>x \<in> set q. well_formed (fst x) \<Longrightarrow> \<exists>r. BFS_test_loop q v shown = Inr r"
proof (induction q v shown rule: BFS_test_loop.induct)
  case (1 q v shown)
  show ?case
  proof (cases q)
    case Nil
    then show ?thesis by (subst BFS_test_loop.simps) simp
  next
    case (Cons current rest)
    have wf: "well_formed (fst current)" using "1.prems" Cons by simp
    from wf_goal_at_center[OF wf] obtain goal where g: "goal_at_center (fst current) = Inr goal" ..
    show ?thesis
    proof (cases goal)
      case True
      then show ?thesis using Cons g by (subst BFS_test_loop.simps) simp
    next
      case False
      let ?succs = "map (succ_of (fst current)) (moves_list (fst current) index_to_pos)"
      have gs: "generate_successor_states (fst current) = Inr ?succs"
        using wf by (rule wf_generate_successor_states)
      have "\<forall>x \<in> set (fst (enqueue_successors ?succs (snd current) rest v)). well_formed (fst x)"
      proof
        fix x assume "x \<in> set (fst (enqueue_successors ?succs (snd current) rest v))"
        with enqueue_successors_set[of ?succs "snd current" rest v]
        consider "x \<in> set rest"
          | m where "m \<in> set (moves_list (fst current) index_to_pos)"
              "x = (applied (fst current) m, snd current @ [m])"
          by (auto simp: succ_of_def)
        then show "well_formed (fst x)"
        proof cases
          case 1
          then show ?thesis using "1.prems" Cons by simp
        next
          case 2
          then show ?thesis using wf_applied[OF wf] by simp
        qed
      qed
      from "1.IH"[OF Cons g False gs this] obtain r where
        "BFS_test_loop (fst (enqueue_successors ?succs (snd current) rest v))
           (snd (enqueue_successors ?succs (snd current) rest v)) (shown @ [fst current]) = Inr r" ..
      then show ?thesis using Cons g False gs by (subst BFS_test_loop.simps) simp
    qed
  qed
qed

lemma BFS_test_loop_path:
  "\<forall>x \<in> set q. entry_ok b0 x \<Longrightarrow> BFS_test_loop q v shown = Inr r \<Longrightarrow>
     (returned r = PyNone \<and> announced r = No_solution_within_limits) \<or>
     (\<exists>seq. returned r = PyMoves seq \<and> announced r = Goal_reached \<and> taken r \<noteq> [] \<and>
            entry_ok b0 (last (taken r), seq) \<and> goal_at_center (last (taken r)) = Inr True)"
proof (induction q v shown rule: BFS_test_loop.induct)
  case (1 q v shown)
  show ?case
  proof (cases q)
    case Nil
    then show ?thesis using "1.prems"(2) by (subst (asm) BFS_test_loop.simps) auto
  next
    case (Cons current rest)
    have ok: "entry_ok b0 current" using "1.prems"(1) Cons by simp
    then have wf: "well_formed (fst current)" by (simp add: entry_ok_def)
    from wf_goal_at_center[OF wf] obtain goal where g: "goal_at_center (fst current) = Inr goal" ..
    show ?thesis
    proof (cases goal)
      case True
      have "r = \<lparr>returned = PyMoves (snd current), announced = Goal_reached,
                taken = shown @ [fst current], shown_path = []\<rparr>"
        using "1.prems"(2) Cons g True by (subst (asm) BFS_test_loop.simps) simp
      then show ?thesis using ok g True by simp
    next
      case False
      let ?succs = "map (succ_of (fst current)) (moves_list (fst current) index_to_pos)"
      have gs: "generate_successor_states (fst current) = Inr ?succs"
        using wf by (rule wf_generate_successor_states)
      have inv: "\<forall>x \<in> set (fst (enqueue_successors ?succs (snd current) rest v)). entry_ok b0 x"
        using entries_after_step[of current rest b0 v] "1.prems"(1) Cons by simp
      have run: "BFS_test_loop (fst (enqueue_successors ?succs (snd current) rest v))
           (snd (enqueue_successors ?succs (snd current) rest v)) (shown @ [fst current]) = Inr r"
        using "1.prems"(2) Cons g False gs by (subst (asm) BFS_test_loop.simps) simp
      from "1.IH"[OF Cons g False gs inv run] show ?thesis .
    qed
  qed
qed

lemma BFS_test_loop_distinct:
  "keys_ok shown (map fst q) v \<Longrightarrow> BFS_test_loop q v shown = Inr r \<Longrightarrow>
     distinct (map serialize (taken r))"
proof (induction q v shown rule: BFS_test_loop.induct)
  case (1 q v shown)
  show ?case
  proof (cases q)
    case Nil
    then have "taken r = shown" using "1.prems"(2) by (subst (asm) BFS_test_loop.simps) auto
    then show ?thesis using "1.prems"(1) Nil by (simp add: keys_ok_def)
  next
    case (Cons current rest)
    show ?thesis
    proof (cases "goal_at_center (fst current)")
      case (Inl e)
      then show ?thesis using "1.prems"(2) Cons by (subst (asm) BFS_test_loop.simps) simp
    next
      case g: (Inr goal)
      show ?thesis
      proof (cases goal)
        case True
        have "taken r = shown @ [fst current]"
          using "1.prems"(2) Cons g True by (subst (asm) BFS_test_loop.simps) auto
        then show ?thesis using "1.prems"(1) Cons by (simp add: keys_ok_def)
      next
        case False
        show ?thesis
        proof (cases "generate_successor_states (fst current)")
          case (Inl e)
          then show ?thesis using "1.prems"(2) Cons g False
            by (subst (asm) BFS_test_loop.simps) simp
        next
          case gs: (Inr succs)
          have k: "keys_ok (shown @ [fst current]) (map fst rest) v"
            using "1.prems"(1) Cons by (simp add: keys_ok_def)
          have run: "BFS_test_loop (fst (enqueue_successors succs (snd current) rest v))
             (snd (enqueue_successors succs (snd current) rest v)) (shown @ [fst current]) = Inr r"
            using "1.prems"(2) Cons g False gs by (subst (asm) BFS_test_loop.simps) simp
          from "1.IH"[OF Cons g False gs enqueue_successors_keys[OF k] run] show ?thesis .
        qed
      qed
    qed
  qed
qed

lemma entry_ok_start: "well_formed b0 \<Longrightarrow> entry_ok b0 (b0, [])"
  by (simp add: entry_ok_def)

lemma BFS_test_total: "well_formed b0 \<Longrightarrow> \<exists>r. BFS_test b0 = Inr r"
  unfolding BFS_test_def by (rule BFS_test_loop_total) simp

lemma BFS_test_distinct: "BFS_test b0 = Inr r \<Longrightarrow> distinct (map serialize (taken r))"
  using BFS_test_loop_distinct[of "[]" "[(b0, [])]" "{serialize b0}" r]
  by (simp add: BFS_test_def keys_ok_def)

section \<open>Breadth-first search of bfs.py\<close>

lemma add_children_set: "set (add_children cs frontier explored) \<subseteq> set frontier \<union> set cs"
proof (induction cs arbitrary: frontier)
  case Nil
  then show ?case by simp
next
  case (Cons c cs)
  show ?case
    using Cons.IH[of "add_to_frontier c frontier explored"] Cons.IH[of frontier]
    by (auto simp: add_to_frontier_def split: if_splits)
qed

lemma serialize_inj: "serialize a = serialize b \<longleftrightarrow> a = b"
  by (simp add: serialize_def)

lemma add_children_distinct:
  "distinct (shown @ frontier) \<Longrightarrow>
     distinct (shown @ add_children cs frontier (map serialize shown))"
proof (induction cs arbitrary: frontier)
  case Nil
  then show ?case by simp
next
  case (Cons c cs)
  show ?case
  proof (cases "serialize c \<notin> set (map serialize shown)")
    case True
    then have c: "c \<notin> set shown" by (auto simp: serialize_inj)
    have "distinct (shown @ add_to_frontier c frontier (map serialize shown))"
      using Cons.prems c by (auto simp: add_to_frontier_def)
    from Cons.IH[OF this] True show ?thesis by simp
  next
    case False
    then show ?thesis using Cons.IH[OF Cons.prems] by simp
  qed
qed

lemma BFS_bfs_loop_total:
  "\<forall>b \<in> set frontier. well_formed b \<Longrightarrow>
     \<exists>r. BFS_bfs_loop frontier explored shown = Inr r \<and> returned r = PyNone \<and>
         (announced r = You_win \<longrightarrow> taken r \<noteq> [] \<and> peg_count (last (taken r)) = 1)"
proof (induction frontier explored shown rule: BFS_bfs_loop.induct)
  case (1 frontier explored shown)
  show ?case
  proof (cases frontier)
    case Nil
    then show ?thesis by (subst BFS_bfs_loop.simps) simp
  next
    case (Cons node rest)
    have wf: "well_formed node" using "1.prems" Cons by simp
    from wf_print_status[OF wf] obtain status where ps: "print_status node = Inr status" ..
    show ?thesis
    proof (cases "peg_count node = 1")
      case True
      then show ?thesis using Cons ps by (subst BFS_bfs_loop.simps) simp
    next
      case False
      from wf_list_moves[OF wf] obtain lines where l: "list_moves node = Inr lines" ..
      let ?children = "map (\<lambda>m. (applied node m, m)) (moves_list node index_to_pos)"
      have gc: "generate_child_boards node = Inr ?children"
        using wf by (rule wf_generate_child_boards)
      have "\<forall>b \<in> set (add_children (map fst ?children) rest (explored @ [serialize node])).
              well_formed b"
      proof
        fix b assume "b \<in> set (add_children (map fst ?children) rest (explored @ [serialize node]))"
        with add_children_set[of "map fst ?children" rest "explored @ [serialize node]"]
        have "b \<in> set rest \<or> b \<in> applied node ` set (moves_list node index_to_pos)"
          by (auto simp: comp_def)
        then show "well_formed b" using "1.prems" Cons wf_applied[OF wf] by auto
      qed
      from "1.IH"[OF Cons ps False l gc this] show ?thesis
        using Cons ps False l gc by (subst BFS_bfs_loop.simps) simp
    qed
  qed
qed

lemma BFS_bfs_loop_distinct:
  "explored = map serialize shown \<Longrightarrow> distinct (shown @ frontier) \<Longrightarrow>
     BFS_bfs_loop frontier explored shown = Inr r \<Longrightarrow> distinct (map serialize (taken r))"
proof (induction frontier explored shown rule: BFS_bfs_loop.induct)
  case (1 frontier explored shown)
  have inj: "distinct (map serialize xs) = distinct xs" for xs
    by (simp add: distinct_map inj_on_def serialize_inj)
  show ?case
  proof (cases frontier)
    case Nil
    then have "taken r = shown" using "1.prems"(3) by (subst (asm) BFS_bfs_loop.simps) auto
    then show ?thesis using "1.prems"(2) Nil by (simp add: inj)
  next
    case (Cons node rest)
    show ?thesis
    proof (cases "print_status node")
      case (Inl e)
      then show ?thesis using "1.prems"(3) Cons by (subst (asm) BFS_bfs_loop.simps) simp
    next
      case ps: (Inr status)
      show ?thesis
      proof (cases "peg_count node = 1")
        case True
        have "taken r = shown @ [node]"
          using "1.prems"(3) Cons ps True by (subst (asm) BFS_bfs_loop.simps) auto
        moreover have "distinct (shown @ [node])" using "1.prems"(2) Cons by simp
        ultimately show ?thesis by (simp only: inj)
      next
        case False
        show ?thesis
        proof (cases "list_moves node")
          case (Inl e)
          then show ?thesis using "1.prems"(3) Cons ps False
            by (subst (asm) BFS_bfs_loop.simps) simp
        next
          case l: (Inr lines)
          show ?thesis
          proof (cases "generate_child_boards node")
            case (Inl e)
            then show ?thesis using "1.prems"(3) Cons ps False l
              by (subst (asm) BFS_bfs_loop.simps) simp
          next
            case gc: (Inr children)
            have e: "explored @ [serialize node] = map serialize (shown @ [node])"
              using "1.prems"(1) by simp
            have d: "distinct ((shown @ [node]) @ rest)" using "1.prems"(2) Cons by simp
            have d': "distinct ((shown @ [node]) @
                        add_children (map fst children) rest (explored @ [serialize node]))"
              unfolding e by (rule add_children_distinct[OF d])
            have run: "BFS_bfs_loop (add_children (map fst children) rest (explored @ [serialize node]))
                         (explored @ [serialize node]) (shown @ [node]) = Inr r"
              using "1.prems"(3) Cons ps False l gc by (subst (asm) BFS_bfs_loop.simps) simp
            from "1.IH"[OF Cons ps False l gc e d' run] show ?thesis .
          qed
        qed
      qed
    qed
  qed
qed

lemma BFS_bfs_total:
  "well_formed b0 \<Longrightarrow> \<exists>r. BFS_bfs b0 = Inr r \<and> returned r = PyNone \<and>
         (announced r = You_win \<longrightarrow> taken r \<noteq> [] \<and> peg_count (last (taken r)) = 1)"
  unfolding BFS_bfs_def by (rule BFS_bfs_loop_total) (simp add: add_to_frontier_def)

lemma BFS_bfs_distinct: "BFS_bfs b0 = Inr r \<Longrightarrow> distinct (map serialize (taken r))"
  using BFS_bfs_loop_distinct[of "[]" "[]" "add_to_frontier b0 [] []" r]
  by (simp add: BFS_bfs_def add_to_frontier_def)

section \<open>Depth-first search of HDFS.py\<close>

lemma add_children_dfs_set:
  "set (add_children_dfs cs frontier chechked explored) \<subseteq> set frontier \<union> set cs"
proof (induction cs arbitrary: frontier)
  case Nil
  then show ?case by simp
next
  case (Cons c cs)
  show ?case
    using Cons.IH[of "add_to_frontier_dfs c frontier chechked"] Cons.IH[of frontier]
    by (auto simp: add_to_frontier_dfs_def split: if_splits)
qed

text \<open>
  Neither membership test of the loop can ever succeed: \<open>explored\<close> holds nodes and is
  asked for a serialized board, \<open>chechked_boards\<close> holds serialized boards and is asked
  for a node.  So every child is pushed.
\<close>

lemma tuple_not_in_nodes: "only_nodes explored \<Longrightarrow> serialize b \<notin> set explored"
  by (auto simp: only_nodes_def serialize_def)

lemma node_not_in_tuples: "only_tuples chechked \<Longrightarrow> PyNode n \<notin> set chechked"
  by (auto simp: only_tuples_def)

lemma add_children_dfs_all:
  "only_nodes explored \<Longrightarrow> only_tuples chechked \<Longrightarrow>
     add_children_dfs cs frontier chechked explored = frontier @ cs"
  by (induction cs arbitrary: frontier)
     (simp_all add: tuple_not_in_nodes node_not_in_tuples add_to_frontier_dfs_def)

lemma only_nodes_snoc: "only_nodes xs \<Longrightarrow> only_nodes (xs @ [PyNode n])"
  by (simp add: only_nodes_def)

lemma only_tuples_snoc: "only_tuples xs \<Longrightarrow> only_tuples (xs @ [serialize b])"
  by (simp add: only_tuples_def serialize_def)

lemma node_ok_wf: "node_ok b0 n \<Longrightarrow> well_formed (node_board n)"
  by (cases n) simp

lemma node_ok_child:
  "node_ok b0 n \<Longrightarrow> m \<in> set (moves_list (node_board n) index_to_pos) \<Longrightarrow>
     node_ok b0 (Treenodes (applied (node_board n) m) (Some n) (Some m))"
  using wf_applied[OF node_ok_wf] by simp

lemma node_ok_ancestors: "node_ok b0 n \<Longrightarrow> \<forall>a \<in> set (ancestors n). node_ok b0 a"
proof (induction n rule: ancestors.induct)
  case (1 b p m)
  show ?case
  proof (cases p)
    case None
    then show ?thesis using "1.prems" by auto
  next
    case (Some q)
    then have "node_ok b0 q" using "1.prems" by simp
    from "1.IH"[OF Some this] Some "1.prems" show ?thesis by simp
  qed
qed

lemma print_path_ok: assumes "node_ok b0 n" shows "print_path n = Inr (steps_of n)"
proof -
  have ok: "\<forall>a \<in> set (rev (ancestors n)). \<exists>st. print_status (node_board a) = Inr st"
    using node_ok_ancestors[OF assms] wf_print_status node_ok_wf by auto
  have "emap (\<lambda>step. ebind (print_status (node_board step))
                          (\<lambda>status. Inr (node_board step, node_move step))) xs
        = Inr (map (\<lambda>s. (node_board s, node_move s)) xs)"
    if "\<forall>a \<in> set xs. \<exists>st. print_status (node_board a) = Inr st" for xs
    using that by (induction xs) auto
  from this[OF ok] show ?thesis by (simp add: print_path_def steps_of_def)
qed

lemma steps_of_facts:
  assumes "node_ok b0 n"
  shows "steps_of n \<noteq> []" "fst (hd (steps_of n)) = b0" "fst (last (steps_of n)) = node_board n"
    "replay b0 (path_moves (steps_of n)) = Inr (node_board n)"
    "play b0 (path_moves (steps_of n)) = Inr (Some (node_board n))"
  using assms
proof (induction n rule: ancestors.induct)
  case (1 b p m)
  {
    case 1
    then show ?case by (simp add: steps_of_def)
  next
    case 2
    note ok = 2
    show ?case
    proof (cases p)
      case None
      then show ?thesis using ok by (simp add: steps_of_def)
    next
      case (Some q)
      then have q: "node_ok b0 q" using ok by simp
      have ne: "steps_of q \<noteq> []" by (simp add: steps_of_def) (cases q, simp)
      from "1.IH"(2)[OF Some q] ne Some show ?thesis by (simp add: steps_of_def hd_append)
    qed
  next
    case 3
    then show ?case by (simp add: steps_of_def)
  next
    case 4
    note ok = 4
    show ?case
    proof (cases p)
      case None
      then show ?thesis using ok by (simp add: steps_of_def path_moves_def List.map_filter_simps)
    next
      case (Some q)
      then obtain mv where q: "node_ok b0 q" and m: "m = Some mv"
        and mem: "mv \<in> set (moves_list (node_board q) index_to_pos)"
        and b: "b = applied (node_board q) mv"
        using ok by (auto split: option.splits)
      have e: "path_moves (steps_of (Treenodes b p m)) = path_moves (steps_of q) @ [mv]"
        using Some m by (simp add: steps_of_def path_moves_def List.map_filter_def)
      show ?thesis
        unfolding e replay_append "1.IH"(4)[OF Some q]
        using applied_legal(1)[OF mem] b by simp
    qed
  next
    case 5
    note ok = 5
    show ?case
    proof (cases p)
      case None
      then show ?thesis using ok by (simp add: steps_of_def path_moves_def List.map_filter_simps)
    next
      case (Some q)
      then obtain mv where q: "node_ok b0 q" and m: "m = Some mv"
        and mem: "mv \<in> set (moves_list (node_board q) index_to_pos)"
        and b: "b = applied (node_board q) mv"
        using ok by (auto split: option.splits)
      have e: "path_moves (steps_of (Treenodes b p m)) = path_moves (steps_of q) @ [mv]"
        using Some m by (simp add: steps_of_def path_moves_def List.map_filter_def)
      show ?thesis
        unfolding e play_append "1.IH"(5)[OF Some q]
        using wf_play_step[OF node_ok_wf[OF q] mem] b by simp
    qed
  }
qed

lemma DFS_loop_result:
  "\<forall>n \<in> set frontier. node_ok b0 n \<Longrightarrow>
     \<exists>r. DFS_loop frontier chechked explored shown = Inr r \<and> returned r = PyNone \<and>
         (announced r = No_solution_found \<and> shown_path r = [] \<or>
          announced r = You_win \<and>
            (\<exists>n. node_ok b0 n \<and> shown_path r = steps_of n \<and> taken r \<noteq> [] \<and>
                 last (taken r) = node_board n \<and> peg_count (node_board n) = 1))"
proof (induction frontier chechked explored shown rule: DFS_loop.induct)
  case (1 frontier chechked explored shown)
  show ?case
  proof (cases "frontier = []")
    case True
    then show ?thesis by (subst DFS_loop.simps) simp
  next
    case False
    let ?n = "last frontier"
    have ok: "node_ok b0 ?n" using "1.prems" False by simp
    have wf: "well_formed (node_board ?n)" using ok by (rule node_ok_wf)
    from wf_print_status[OF wf] obtain status where ps: "print_status (node_board ?n) = Inr status" ..
    show ?thesis
    proof (cases "peg_count (node_board ?n) = 1")
      case True
      have "DFS_loop frontier chechked explored shown =
              Inr \<lparr>returned = PyNone, announced = You_win,
                   taken = shown @ [node_board ?n], shown_path = steps_of ?n\<rparr>"
        using False ps True print_path_ok[OF ok] by (subst DFS_loop.simps) simp
      then show ?thesis using ok True by auto
    next
      case ng: False
      from wf_list_moves[OF wf] obtain lines where l: "list_moves (node_board ?n) = Inr lines" ..
      let ?children = "map (\<lambda>m. Treenodes (applied (node_board ?n) m) (Some ?n) (Some m))
                           (moves_list (node_board ?n) index_to_pos)"
      have gc: "generate_child_boards_dfs ?n = Inr ?children"
        using wf by (rule wf_generate_child_boards_dfs)
      have cok: "\<forall>x \<in> set ?children. node_ok b0 x"
        using node_ok_child[OF ok] by auto
      then have "\<forall>x \<in> set ?children. well_formed (node_board x)" using node_ok_wf by blast
      then have ho: "heuristic_order ?children = Inr (rev (sort_key key_of ?children))"
        by (rule wf_heuristic_order)
      let ?c' = "chechked @ [serialize (node_board ?n)]"
      let ?e' = "explored @ [PyNode ?n]"
      have "\<forall>x \<in> set (add_children_dfs (rev (sort_key key_of ?children)) (butlast frontier) ?c' ?e').
              node_ok b0 x"
      proof
        fix x
        assume "x \<in> set (add_children_dfs (rev (sort_key key_of ?children)) (butlast frontier) ?c' ?e')"
        with add_children_dfs_set[of "rev (sort_key key_of ?children)" "butlast frontier" ?c' ?e']
        have "x \<in> set (butlast frontier) \<or> x \<in> set ?children" by auto
        then show "node_ok b0 x" using cok "1.prems" by (auto dest: in_set_butlastD)
      qed
      from "1.IH"[OF False ps ng l gc ho this] show ?thesis
        using False ps ng l gc ho by (subst DFS_loop.simps) simp
    qed
  qed
qed

lemma DFS_result:
  assumes "well_formed b0"
  shows "\<exists>r. DFS b0 = Inr r \<and> returned r = PyNone \<and>
         (announced r = No_solution_found \<and> shown_path r = [] \<or>
          announced r = You_win \<and>
            (\<exists>n. node_ok b0 n \<and> shown_path r = steps_of n \<and> taken r \<noteq> [] \<and>
                 last (taken r) = node_board n \<and> peg_count (node_board n) = 1))"
  unfolding DFS_def
  by (rule DFS_loop_result) (use assms in \<open>simp add: add_to_frontier_dfs_def\<close>)

text \<open>One iteration of the depth-first loop on a node that is not a goal.\<close>

lemma DFS_loop_step:
  assumes "frontier \<noteq> []" "well_formed (node_board (last frontier))"
    "peg_count (node_board (last frontier)) \<noteq> 1"
    "only_nodes explored" "only_tuples chechked"
  shows "\<exists>ms children ordered.
           legal_moves (node_board (last frontier)) = Inr ms \<and>
           generate_child_boards_dfs (last frontier) = Inr children \<and>
           children = map (\<lambda>m. Treenodes (applied (node_board (last frontier)) m)
                                 (Some (last frontier)) (Some m)) ms \<and>
           heuristic_order children = Inr ordered \<and>
           rev ordered = sort_key key_of children \<and>
           DFS_loop frontier chechked explored shown =
             DFS_loop (butlast frontier @ ordered)
               (chechked @ [serialize (node_board (last frontier))])
               (explored @ [PyNode (last frontier)])
               (shown @ [node_board (last frontier)])"
proof -
  let ?n = "last frontier"
  let ?ms = "moves_list (node_board ?n) index_to_pos"
  let ?children = "map (\<lambda>m. Treenodes (applied (node_board ?n) m) (Some ?n) (Some m)) ?ms"
  let ?ordered = "rev (sort_key key_of ?children)"
  have wf: "well_formed (node_board ?n)" using assms(2) .
  have lm: "legal_moves (node_board ?n) = Inr ?ms" using wf by (rule wf_legal_moves)
  from wf_print_status[OF wf] obtain status where ps: "print_status (node_board ?n) = Inr status" ..
  from wf_list_moves[OF wf] obtain lines where l: "list_moves (node_board ?n) = Inr lines" ..
  have gc: "generate_child_boards_dfs ?n = Inr ?children"
    using wf by (rule wf_generate_child_boards_dfs)
  have "\<forall>x \<in> set ?children. well_formed (node_board x)" using wf_applied[OF wf] by auto
  then have ho: "heuristic_order ?children = Inr ?ordered" by (rule wf_heuristic_order)
  have push: "add_children_dfs ?ordered (butlast frontier)
                (chechked @ [serialize (node_board ?n)]) (explored @ [PyNode ?n])
              = butlast frontier @ ?ordered"
    by (rule add_children_dfs_all[OF only_nodes_snoc[OF assms(4)] only_tuples_snoc[OF assms(5)]])
  have "DFS_loop frontier chechked explored shown =
          DFS_loop (butlast frontier @ ?ordered)
            (chechked @ [serialize (node_board ?n)]) (explored @ [PyNode ?n])
            (shown @ [node_board ?n])"
    using assms(1,3) ps l gc ho push by (subst DFS_loop.simps) simp
  with lm gc ho show ?thesis by simp
qed

lemma BFS_test_two_pegs:
  "BFS_test two_pegs =
     Inr \<lparr>returned = PyMoves [(15, 17)], announced = Goal_reached,
          taken = [two_pegs, peg_at_17], shown_path = []\<rparr>"
  by code_simp

lemma BFS_bfs_two_pegs:
  "BFS_bfs two_pegs =
     Inr \<lparr>returned = PyNone, announced = You_win,
          taken = [two_pegs, peg_at_17], shown_path = []\<rparr>"
  by code_simp

lemma DFS_two_pegs:
  "DFS two_pegs =
     Inr \<lparr>returned = PyNone, announced = You_win,
          taken = [two_pegs, peg_at_17],
          shown_path = [(two_pegs, None), (peg_at_17, Some (15, 17))]\<rparr>"
  by code_simp

lemma DFS_four_pegs:
  "DFS four_pegs =
     Inr \<lparr>returned = PyNone, announced = No_solution_found,
          taken = [four_pegs, after_1_3, after_both, after_31_33, after_both],
          shown_path = []\<rparr>"
  by code_simp

lemma BFS_test_four_pegs:
  "BFS_test four_pegs =
     Inr \<lparr>returned = PyNone, announced = No_solution_within_limits,
          taken = [four_pegs, after_1_3, after_31_33, after_both],
          shown_path = []\<rparr>"
  by code_simp

lemma replay_descent: "replay board descent = Inr seven_pegs"
  by code_simp

lemma seven_pegs_children:
  "ebind (generate_child_boards_dfs (Treenodes seven_pegs None None))
         (\<lambda>children. ebind (heuristic_order children)
            (\<lambda>ordered. Inr (map (\<lambda>x. (the (node_move x), mobility x)) (rev ordered))))
   = Inr [((18, 16), 4), ((24, 10), 4), ((18, 30), 3), ((17, 29), 2), ((17, 19), 2),
          ((24, 26), 2), ((25, 11), 2), ((25, 23), 2)]"
  by code_simp

lemma wf_small_boards:
  "well_formed two_pegs" "well_formed four_pegs" "well_formed seven_pegs"
  by (simp_all add: well_formed_def two_pegs_def four_pegs_def seven_pegs_def board_eq)

section \<open>Legal moves are exactly the moves of the rule\<close>

text \<open>
  Claim C1.  On every well-formed board \<open>legal_moves\<close> returns (it does not raise), and
  a pair \<open>(frm, to)\<close> is in the returned list if and only if \<open>frm\<close> and \<open>to\<close> are hole
  numbers, the cell of \<open>frm\<close> holds a peg, the cell of \<open>to\<close> is empty, the two cells are
  exactly two apart along one axis of the grid, and the cell between them holds a peg.
\<close>

theorem legal_moves_exactly_legal:
  "well_formed b \<Longrightarrow>
     \<exists>ms. legal_moves b = Inr ms \<and> ((frm, to) \<in> set ms \<longleftrightarrow> legal_spec b (frm, to))"
  by (simp add: wf_legal_moves moves_list_iff_spec)

theorem legal_moves_exactly_legal_witness:
  "well_formed board \<and>
     (\<exists>ms. legal_moves board = Inr ms \<and> (5, 17) \<in> set ms \<and> legal_spec board (5, 17))"
  using legal_moves_exactly_legal[OF well_formed_board, of 5 17] well_formed_board legal_spec_board
  by auto


section \<open>The interactive check agrees with the enumeration\<close>

text \<open>
  Claim C10.  On every well-formed board of soloT2.py and every well-formed peg
  dictionary of soloT.py, and for every pair of integers \<open>(frm, to)\<close>,
  \<open>is_valid_move\<close> returns \<open>True\<close> exactly when \<open>(frm, to)\<close> is an element of what
  \<open>legal_moves\<close> returns on the same state; neither function raises.
\<close>

theorem is_valid_move_iff_legal_moves:
  "well_formed b \<Longrightarrow> well_formed_state st \<Longrightarrow>
     (\<exists>ms. legal_moves b = Inr ms \<and> is_valid_move b frm to = Inr ((frm, to) \<in> set ms)) \<and>
     (\<exists>ms. legal_moves_state st = Inr ms \<and>
           is_valid_move_state st frm to = Inr ((frm, to) \<in> set ms))"
  by (simp add: wf_legal_moves is_valid_move_wf moves_list_iff_spec
                wf_legal_moves_state is_valid_move_state_wf moves_list_state_iff)

theorem is_valid_move_iff_legal_moves_witness:
  "well_formed board \<and> well_formed_state state \<and>
     (\<exists>ms. legal_moves board = Inr ms \<and> is_valid_move board 5 17 = Inr ((5, 17) \<in> set ms)) \<and>
     (\<exists>ms. legal_moves_state state = Inr ms \<and>
           is_valid_move_state state 5 17 = Inr ((5, 17) \<in> set ms)) \<and>
     is_valid_move board 5 17 = Inr True \<and> is_valid_move_state state 5 19 = Inr False"
  using is_valid_move_iff_legal_moves[OF well_formed_board well_formed_state_state, of 5 17]
        well_formed_board well_formed_state_state is_valid_move_examples
        is_valid_move_state_examples
  by simp


section \<open>Applying an enumerated move\<close>

text \<open>
  Claim C2.  On every well-formed board both generators return: bfs.py's
  \<open>generate_child_boards\<close> pairs every move of \<open>legal_moves\<close>, in order, with the board
  obtained by applying it, and test.py's \<open>generate_successor_states\<close> yields the same
  boards and moves.  Every such board has exactly one peg fewer than the input, the same
  number of cells, and \<open>-1\<close> in exactly the same cells.
\<close>

theorem legal_move_removes_one_peg:
  assumes "well_formed b"
  shows "\<exists>ms children successors.
           legal_moves b = Inr ms \<and>
           generate_child_boards b = Inr children \<and> map snd children = ms \<and>
           generate_successor_states b = Inr successors \<and>
           map (\<lambda>(f, t, nb). (nb, (f, t))) successors = children \<and>
           (\<forall>(b', m) \<in> set children.
              apply_move b m = Inr b' \<and>
              peg_count b' = peg_count b - 1 \<and>
              length (concat b') = length (concat b) \<and>
              map (map (\<lambda>v. v = - 1)) b' = map (map (\<lambda>v. v = - 1)) b)"
proof -
  let ?ms = "moves_list b index_to_pos"
  let ?children = "map (\<lambda>m. (applied b m, m)) ?ms"
  have 1: "legal_moves b = Inr ?ms" using assms by (rule wf_legal_moves)
  have 2: "generate_child_boards b = Inr ?children" using assms by (rule wf_generate_child_boards)
  have 3: "generate_successor_states b = Inr (map (succ_of b) ?ms)"
    using assms by (rule wf_generate_successor_states)
  have 4: "map snd ?children = ?ms" by (simp add: comp_def)
  have 5: "map (\<lambda>(f, t, nb). (nb, (f, t))) (map (succ_of b) ?ms) = ?children"
    by (simp add: succ_of_def comp_def)
  have 6: "apply_move b m = Inr b' \<and> peg_count b' = peg_count b - 1 \<and>
      length (concat b') = length (concat b) \<and>
      map (map (\<lambda>v. v = - 1)) b' = map (map (\<lambda>v. v = - 1)) b"
    if "(b', m) \<in> set ?children" for b' m
  proof -
    from that have m: "m \<in> set ?ms" and b': "b' = applied b m" by auto
    show ?thesis
      unfolding b' using applied_legal[OF m] mask_same_size[of "applied b m" b]
      by (simp add: mask_def)
  qed
  show ?thesis using 1 2 3 4 5 6 by blast
qed

theorem legal_move_removes_one_peg_witness:
  "well_formed board \<and>
   (\<exists>children b'. generate_child_boards board = Inr children \<and> (b', (5, 17)) \<in> set children \<and>
      apply_move board (5, 17) = Inr b' \<and> peg_count board = 32 \<and> peg_count b' = 31 \<and>
      length (concat b') = 49)"
proof -
  from legal_move_removes_one_peg[OF well_formed_board] obtain ms children successors where
    h: "generate_child_boards board = Inr children"
       "\<forall>(b', m) \<in> set children.
              apply_move board m = Inr b' \<and>
              peg_count b' = peg_count board - 1 \<and>
              length (concat b') = length (concat board) \<and>
              map (map (\<lambda>v. v = - 1)) b' = map (map (\<lambda>v. v = - 1)) board"
    by blast
  from h(1) obtain b' where m: "(b', (5, 17)) \<in> set children"
    unfolding generate_child_boards_board by auto
  from h(2) m have "apply_move board (5, 17) = Inr b' \<and> peg_count b' = peg_count board - 1 \<and>
      length (concat b') = length (concat board)" by blast
  moreover have "length (concat board) = 49" by (simp add: board_eq)
  ultimately show ?thesis using well_formed_board h(1) m peg_count_board by auto
qed

section \<open>The order of the enumeration\<close>

text \<open>
  Claim C8, as amended.  On every well-formed board the list returned by \<open>legal_moves\<close>
  is in ascending order of the \<open>from\<close> hole, and the moves of one \<open>from\<close> hole come in
  the order of \<open>DIRECTIONS\<close>: up, down, left, right.
\<close>

theorem legal_moves_ascending_from_direction:
  "well_formed b \<Longrightarrow> \<exists>ms. legal_moves b = Inr ms \<and> ascending_from_direction ms \<and> sorted (map fst ms)"
proof -
  assume wf: "well_formed b"
  have a: "ascending_from_direction (moves_list b index_to_pos)"
    by (rule sorted_moves_list[OF subset_refl sorted_index_to_pos])
  then have "sorted_wrt (\<lambda>m m'. fst m \<le> fst m') (moves_list b index_to_pos)"
    unfolding ascending_from_direction_def by (rule sorted_wrt_mono_rel[rotated]) auto
  then have "sorted (map fst (moves_list b index_to_pos))"
    by (simp add: sorted_map)
  with a wf_legal_moves[OF wf] show ?thesis by simp
qed

theorem legal_moves_ascending_from_direction_witness:
  "well_formed board_after_three \<and>
   legal_moves board_after_three =
     Inr [(9, 23), (17, 29), (17, 15), (18, 30), (21, 23), (25, 23), (31, 23)] \<and>
   ascending_from_direction [(9, 23), (17, 29), (17, 15), (18, 30), (21, 23), (25, 23), (31, 23)]"
  using legal_moves_ascending_from_direction[OF well_formed_board_after_three]
        well_formed_board_after_three legal_moves_board_after_three
  by simp

text \<open>
  Claim C8 as stated fails: moves of one \<open>from\<close> hole are not in ascending order of
  \<open>to\<close>.  After the moves 15-17, 28-16, 30-28 from the initial board, hole 17 can jump
  down to 29 and left to 15, and \<open>legal_moves\<close> lists 29 before 15.
\<close>

theorem legal_moves_not_ascending_to:
  "replay board [(15, 17), (28, 16), (30, 28)] = Inr board_after_three \<and>
   well_formed board_after_three \<and>
   legal_moves board_after_three =
     Inr [(9, 23), (17, 29), (17, 15), (18, 30), (21, 23), (25, 23), (31, 23)] \<and>
   \<not> ascending_from_to [(9, 23), (17, 29), (17, 15), (18, 30), (21, 23), (25, 23), (31, 23)]"
  using replay_board_after_three well_formed_board_after_three legal_moves_board_after_three
  by (simp add: ascending_from_to_def)

section \<open>Path reconstruction\<close>

text \<open>
  Claim C9.  From a well-formed start board: when test.py's \<open>BFS\<close> returns a move
  sequence, replaying it from the start board with the move applicator gives exactly the
  board of the goal node (the last board taken from the queue); when HDFS.py's \<open>DFS\<close>
  wins, the path printed by \<open>print_path\<close> starts at the start board, ends at the board
  of the goal node, and replaying its moves from the start board gives exactly that board.
\<close>

theorem reconstructed_path_replays_to_goal:
  assumes "well_formed b0"
  shows "(BFS_test b0 = Inr r \<and> returned r = PyMoves seq \<longrightarrow>
            taken r \<noteq> [] \<and> replay b0 seq = Inr (last (taken r))) \<and>
         (DFS b0 = Inr r' \<and> announced r' = You_win \<longrightarrow>
            taken r' \<noteq> [] \<and> shown_path r' \<noteq> [] \<and> fst (hd (shown_path r')) = b0 \<and>
            fst (last (shown_path r')) = last (taken r') \<and>
            replay b0 (path_moves (shown_path r')) = Inr (last (taken r')))"
proof (intro conjI impI)
  assume a: "BFS_test b0 = Inr r \<and> returned r = PyMoves seq"
  have "\<forall>x \<in> set [(b0, [])]. entry_ok b0 x" using entry_ok_start[OF assms] by simp
  from BFS_test_loop_path[OF this, of "{serialize b0}" "[]" r] a
  have "taken r \<noteq> [] \<and> entry_ok b0 (last (taken r), seq)" by (auto simp: BFS_test_def)
  then show "taken r \<noteq> []" "replay b0 seq = Inr (last (taken r))" by (simp_all add: entry_ok_def)
next
  assume a: "DFS b0 = Inr r' \<and> announced r' = You_win"
  from DFS_result[OF assms] a obtain n where
    n: "node_ok b0 n" "shown_path r' = steps_of n" "taken r' \<noteq> []" "last (taken r') = node_board n"
    by auto
  note f = steps_of_facts[OF n(1)]
  show "taken r' \<noteq> []" "shown_path r' \<noteq> []" "fst (hd (shown_path r')) = b0"
    "fst (last (shown_path r')) = last (taken r')"
    "replay b0 (path_moves (shown_path r')) = Inr (last (taken r'))"
    using n f by simp_all
qed

theorem reconstructed_path_replays_to_goal_witness:
  "well_formed two_pegs \<and>
   BFS_test two_pegs = Inr \<lparr>returned = PyMoves [(15, 17)], announced = Goal_reached,
          taken = [two_pegs, peg_at_17], shown_path = []\<rparr> \<and>
   replay two_pegs [(15, 17)] = Inr peg_at_17 \<and>
   DFS two_pegs = Inr \<lparr>returned = PyNone, announced = You_win,
          taken = [two_pegs, peg_at_17],
          shown_path = [(two_pegs, None), (peg_at_17, Some (15, 17))]\<rparr> \<and>
   replay two_pegs (path_moves [(two_pegs, None), (peg_at_17, Some (15, 17))]) = Inr peg_at_17"
  using reconstructed_path_replays_to_goal[OF wf_small_boards(1),
          of "\<lparr>returned = PyMoves [(15, 17)], announced = Goal_reached,
               taken = [two_pegs, peg_at_17], shown_path = []\<rparr>" "[(15, 17)]"
             "\<lparr>returned = PyNone, announced = You_win, taken = [two_pegs, peg_at_17],
               shown_path = [(two_pegs, None), (peg_at_17, Some (15, 17))]\<rparr>"]
        wf_small_boards(1) BFS_test_two_pegs DFS_two_pegs
  by simp

section \<open>Breadth-first search finds a shortest solution\<close>

text \<open>
  Claim C4.  When test.py's \<open>BFS\<close> returns a move sequence from a well-formed start
  board, that sequence is a sequence of legal moves leading from the start board to a goal
  board, and no sequence of legal moves that leads from the start board to a goal board
  is shorter.  (bfs.py's \<open>BFS\<close> reports no move sequence.)
\<close>

lemma goal_at_center_one_peg: "goal_at_center g = Inr True \<Longrightarrow> peg_count g = 1"
  by (auto simp: goal_at_center_def split: if_splits)

theorem BFS_solution_is_shortest:
  assumes "well_formed b0" "BFS_test b0 = Inr r" "returned r = PyMoves seq"
    "play b0 ms = Inr (Some g)" "goal_at_center g = Inr True"
  shows "play b0 seq = Inr (Some (last (taken r))) \<and>
         goal_at_center (last (taken r)) = Inr True \<and> length seq \<le> length ms"
proof -
  have "\<forall>x \<in> set [(b0, [])]. entry_ok b0 x" using entry_ok_start[OF assms(1)] by simp
  from BFS_test_loop_path[OF this, of "{serialize b0}" "[]" r] assms(2,3)
  have e: "entry_ok b0 (last (taken r), seq)" and gl: "goal_at_center (last (taken r)) = Inr True"
    by (auto simp: BFS_test_def)
  from e have p: "play b0 seq = Inr (Some (last (taken r)))" by (simp add: entry_ok_def)
  have "peg_count (last (taken r)) = peg_count b0 - int (length seq)"
    using wf_play[OF assms(1) p] by simp
  moreover have "peg_count g = peg_count b0 - int (length ms)"
    using wf_play[OF assms(1,4)] by simp
  ultimately have "length seq = length ms"
    using goal_at_center_one_peg[OF gl] goal_at_center_one_peg[OF assms(5)] by simp
  with p gl show ?thesis by simp
qed

lemma play_two_pegs: "play two_pegs [(15, 17)] = Inr (Some peg_at_17)"
  by code_simp

lemma goal_peg_at_17: "goal_at_center peg_at_17 = Inr True"
  by code_simp

theorem BFS_solution_is_shortest_witness:
  "well_formed two_pegs \<and>
   BFS_test two_pegs = Inr \<lparr>returned = PyMoves [(15, 17)], announced = Goal_reached,
          taken = [two_pegs, peg_at_17], shown_path = []\<rparr> \<and>
   play two_pegs [(15, 17)] = Inr (Some peg_at_17) \<and> goal_at_center peg_at_17 = Inr True \<and>
   length [(15, 17) :: move] \<le> length [(15, 17) :: move]"
  using BFS_solution_is_shortest[OF wf_small_boards(1) BFS_test_two_pegs _ play_two_pegs goal_peg_at_17]
        wf_small_boards(1) BFS_test_two_pegs play_two_pegs goal_peg_at_17
  by simp

section \<open>What the searches return\<close>

text \<open>
  Claim C6, as amended.  From a well-formed start board all three searches return
  without raising.  test.py's \<open>BFS\<close> returns either \<open>None\<close> (after printing that no
  solution was found) or a sequence of legal moves from the start board to a goal board,
  which has one move per peg removed; bfs.py's \<open>BFS\<close> and HDFS.py's \<open>DFS\<close> return
  \<open>None\<close> in every case, a solved run included, and report their outcome by printing.
\<close>

theorem searches_return_normally:
  assumes "well_formed b0"
  shows "(\<exists>r. BFS_test b0 = Inr r \<and>
            (returned r = PyNone \<and> announced r = No_solution_within_limits \<or>
             (\<exists>seq. returned r = PyMoves seq \<and> announced r = Goal_reached \<and>
                    play b0 seq = Inr (Some (last (taken r))) \<and>
                    goal_at_center (last (taken r)) = Inr True \<and>
                    int (length seq) = peg_count b0 - 1))) \<and>
         (\<exists>r. BFS_bfs b0 = Inr r \<and> returned r = PyNone) \<and>
         (\<exists>r. DFS b0 = Inr r \<and> returned r = PyNone)"
proof (intro conjI)
  from BFS_test_total[OF assms] obtain r where r: "BFS_test b0 = Inr r" ..
  have "\<forall>x \<in> set [(b0, [])]. entry_ok b0 x" using entry_ok_start[OF assms] by simp
  from BFS_test_loop_path[OF this, of "{serialize b0}" "[]" r] r
  consider "returned r = PyNone \<and> announced r = No_solution_within_limits"
    | seq where "returned r = PyMoves seq" "announced r = Goal_reached"
        "entry_ok b0 (last (taken r), seq)" "goal_at_center (last (taken r)) = Inr True"
    by (auto simp: BFS_test_def)
  then show "\<exists>r. BFS_test b0 = Inr r \<and>
            (returned r = PyNone \<and> announced r = No_solution_within_limits \<or>
             (\<exists>seq. returned r = PyMoves seq \<and> announced r = Goal_reached \<and>
                    play b0 seq = Inr (Some (last (taken r))) \<and>
                    goal_at_center (last (taken r)) = Inr True \<and>
                    int (length seq) = peg_count b0 - 1))"
  proof cases
    case 1
    then show ?thesis using r by blast
  next
    case 2
    from 2(3) have p: "play b0 seq = Inr (Some (last (taken r)))" by (simp add: entry_ok_def)
    have "int (length seq) = peg_count b0 - 1"
      using wf_play[OF assms p] goal_at_center_one_peg[OF 2(4)] by simp
    then show ?thesis using r 2 p by blast
  qed
next
  show "\<exists>r. BFS_bfs b0 = Inr r \<and> returned r = PyNone"
    using BFS_bfs_total[OF assms] by blast
next
  show "\<exists>r. DFS b0 = Inr r \<and> returned r = PyNone"
    using DFS_result[OF assms] by blast
qed

theorem searches_return_normally_witness:
  "well_formed board \<and>
   (\<exists>r. BFS_test board = Inr r \<and>
            (returned r = PyNone \<and> announced r = No_solution_within_limits \<or>
             (\<exists>seq. returned r = PyMoves seq \<and> announced r = Goal_reached \<and>
                    play board seq = Inr (Some (last (taken r))) \<and>
                    goal_at_center (last (taken r)) = Inr True \<and> length seq = 31))) \<and>
   (\<exists>r. BFS_bfs board = Inr r \<and> returned r = PyNone) \<and>
   (\<exists>r. DFS board = Inr r \<and> returned r = PyNone)"
  using searches_return_normally[OF well_formed_board] well_formed_board
  by (simp add: peg_count_board)

text \<open>
  Claim C6 as stated fails for bfs.py's \<open>BFS\<close> (and HDFS.py's \<open>DFS\<close>): on the board
  with pegs in holes 15 and 16 the search reaches the goal and prints that the player
  wins, and returns \<open>None\<close>, not a sequence of moves.
\<close>

theorem solved_search_returns_None:
  "BFS_bfs two_pegs =
     Inr \<lparr>returned = PyNone, announced = You_win,
          taken = [two_pegs, peg_at_17], shown_path = []\<rparr>"
  by (rule BFS_bfs_two_pegs)

section \<open>Expanding a board twice\<close>

text \<open>
  Claim C5 holds for both breadth-first searches and fails for the depth-first search,
  whose two membership tests compare objects of different kinds and never succeed.  On
  the board with pegs in holes 1, 2, 31 and 32 the depth-first run takes the board
  reached by both jumps from the frontier twice, once on each order of the two jumps.
\<close>

theorem DFS_takes_a_board_twice:
  "DFS four_pegs =
     Inr \<lparr>returned = PyNone, announced = No_solution_found,
          taken = [four_pegs, after_1_3, after_both, after_31_33, after_both],
          shown_path = []\<rparr> \<and>
   \<not> distinct (map serialize [four_pegs, after_1_3, after_both, after_31_33, after_both])"
  using DFS_four_pegs by simp

text \<open>The breadth-first searches never take a board twice.\<close>

lemma breadth_first_takes_no_board_twice:
  "(BFS_test b0 = Inr r \<longrightarrow> distinct (map serialize (taken r))) \<and>
   (BFS_bfs b0 = Inr r' \<longrightarrow> distinct (map serialize (taken r')))"
  using BFS_test_distinct BFS_bfs_distinct by blast


section \<open>The heuristic order of the depth-first search\<close>

lemma key_of_le: "key_of x \<le> key_of y \<longleftrightarrow> mobility y \<le> mobility x"
proof -
  have "inverse (of_nat (mobility x) + (1::rat)) \<le> inverse (of_nat (mobility y) + 1)
          \<longleftrightarrow> of_nat (mobility y) + (1::rat) \<le> of_nat (mobility x) + 1"
    by (rule inverse_le_iff_le) (simp_all add: add_nonneg_pos)
  then show ?thesis by (simp add: key_of_def inverse_eq_divide)
qed

lemma key_of_eq: "key_of x = 1 / (of_nat k + 1) \<longleftrightarrow> mobility x = k"
proof -
  have "inverse (of_nat (mobility x) + (1::rat)) = inverse (of_nat k + 1)
          \<longleftrightarrow> of_nat (mobility x) + (1::rat) = of_nat k + 1"
    by (rule inverse_eq_iff_eq)
  then show ?thesis by (simp add: key_of_def inverse_eq_divide)
qed

lemma sort_key_of_descending:
  "sorted_wrt (\<lambda>x y. mobility y \<le> mobility x) (sort_key key_of cs)"
proof -
  have "sorted (map key_of (sort_key key_of cs))" by (rule sorted_sort_key)
  then show ?thesis by (simp add: sorted_map key_of_le)
qed

lemma sort_key_of_stable:
  "filter (\<lambda>x. mobility x = k) (sort_key key_of cs) = filter (\<lambda>x. mobility x = k) cs"
  using sort_key_stable[of key_of "1 / (of_nat k + 1)" cs] by (simp add: key_of_eq)


lemma only_start: "only_nodes []" "only_tuples [serialize b]"
  by (simp_all add: only_nodes_def only_tuples_def serialize_def)

text \<open>
  Claim C7, as amended.  When the depth-first loop expands a node that is not a goal (its
  board well formed, \<open>explored\<close> holding nodes and \<open>chechked_boards\<close> holding serialized
  boards, as they do throughout a run), all children of the node are appended to the
  frontier in the order returned by \<open>heuristic_order\<close>.  The frontier is taken from its
  end, so the children are explored in the reverse of that order: by descending number of
  legal moves of their boards, and children with equal numbers in their enumeration
  order, which is the order of \<open>legal_moves\<close>.
\<close>

theorem children_explored_by_descending_mobility:
  assumes "frontier \<noteq> []" "well_formed (node_board (last frontier))"
    "peg_count (node_board (last frontier)) \<noteq> 1"
    "only_nodes explored" "only_tuples chechked"
  shows "\<exists>ms children ordered.
           legal_moves (node_board (last frontier)) = Inr ms \<and>
           generate_child_boards_dfs (last frontier) = Inr children \<and>
           map node_move children = map Some ms \<and>
           heuristic_order children = Inr ordered \<and>
           DFS_loop frontier chechked explored shown =
             DFS_loop (butlast frontier @ ordered)
               (chechked @ [serialize (node_board (last frontier))])
               (explored @ [PyNode (last frontier)])
               (shown @ [node_board (last frontier)]) \<and>
           sorted_wrt (\<lambda>x y. mobility y \<le> mobility x) (rev ordered) \<and>
           (\<forall>k. filter (\<lambda>x. mobility x = k) (rev ordered) = filter (\<lambda>x. mobility x = k) children)"
proof -
  from DFS_loop_step[OF assms, of shown] obtain ms children ordered where
    h: "legal_moves (node_board (last frontier)) = Inr ms"
       "generate_child_boards_dfs (last frontier) = Inr children"
       "children = map (\<lambda>m. Treenodes (applied (node_board (last frontier)) m)
                                 (Some (last frontier)) (Some m)) ms"
       "heuristic_order children = Inr ordered"
       "rev ordered = sort_key key_of children"
       "DFS_loop frontier chechked explored shown =
             DFS_loop (butlast frontier @ ordered)
               (chechked @ [serialize (node_board (last frontier))])
               (explored @ [PyNode (last frontier)])
               (shown @ [node_board (last frontier)])"
    by blast
  have m: "map node_move children = map Some ms" unfolding h(3) by (simp add: comp_def)
  have s: "sorted_wrt (\<lambda>x y. mobility y \<le> mobility x) (rev ordered)"
    unfolding h(5) by (rule sort_key_of_descending)
  have t: "\<forall>k. filter (\<lambda>x. mobility x = k) (rev ordered) = filter (\<lambda>x. mobility x = k) children"
    unfolding h(5) by (simp add: sort_key_of_stable)
  from h(1,2) m h(4,6) s t show ?thesis by blast
qed

lemma peg_count_two_pegs: "peg_count two_pegs = 2"
  by (simp add: peg_count_def two_pegs_def)

theorem children_explored_by_descending_mobility_witness:
  "[Treenodes two_pegs None None] \<noteq> [] \<and> well_formed two_pegs \<and> peg_count two_pegs \<noteq> 1 \<and>
   only_nodes [] \<and> only_tuples [serialize two_pegs] \<and>
   (\<exists>ms children ordered.
      legal_moves two_pegs = Inr ms \<and>
      generate_child_boards_dfs (Treenodes two_pegs None None) = Inr children \<and>
      map node_move children = map Some ms \<and>
      heuristic_order children = Inr ordered \<and>
      sorted_wrt (\<lambda>x y. mobility y \<le> mobility x) (rev ordered))"
proof -
  have 1: "[Treenodes two_pegs None None] \<noteq> []" by simp
  have 2: "well_formed (node_board (last [Treenodes two_pegs None None]))"
    using wf_small_boards(1) by simp
  have 3: "peg_count (node_board (last [Treenodes two_pegs None None])) \<noteq> 1"
    by (simp add: peg_count_two_pegs)
  from children_explored_by_descending_mobility[OF 1 2 3 only_start(1) only_start(2)[of two_pegs],
         where shown = "[]"]
  show ?thesis
    using wf_small_boards(1) only_start(1) only_start(2)[of two_pegs]
    by (auto simp: peg_count_two_pegs)
qed

text \<open>
  Claim C7 as stated fails in its description of the tie order: the enumeration order
  is not ascending in \<open>to\<close>.  The 26th node of the depth-first run from the initial
  board holds the board reached by the moves \<open>descent\<close>; its children reached by the
  moves 17-29 and 17-19 both have two legal moves, and 17-29 is explored first.
\<close>

theorem tied_children_not_in_ascending_to_order:
  "replay board descent = Inr seven_pegs \<and>
   ebind (generate_child_boards_dfs (Treenodes seven_pegs None None))
         (\<lambda>children. ebind (heuristic_order children)
            (\<lambda>ordered. Inr (map (\<lambda>x. (the (node_move x), mobility x)) (rev ordered))))
   = Inr [((18, 16), 4), ((24, 10), 4), ((18, 30), 3), ((17, 29), 2), ((17, 19), 2),
          ((24, 26), 2), ((25, 11), 2), ((25, 23), 2)] \<and>
   \<not> ties_ascending_from_to
        [((18, 16), 4), ((24, 10), 4), ((18, 30), 3), ((17, 29), 2), ((17, 19), 2),
         ((24, 26), 2), ((25, 11), 2), ((25, 23), 2)]"
  using replay_descent seven_pegs_children by (simp add: ties_ascending_from_to_def)
end
